theory Spec2Isabelle
  imports Main "HOL-Library.Sublist"
begin

section \<open>Python values and exceptions\<close>

text \<open>
  The simplified values that come out of the store are JSON-like: scalars, lists and
  dicts with string keys. A dict carries the address \<open>id(obj)\<close> of the dict object,
  because \<open>ObjectDesimplifier.get_key\<close> reads it, and its items in iteration order.
  Rehydrated values add references to model instances (\<open>PObj a\<close>, \<open>a\<close> an address of
  the heap below), datetimes and IP networks. Strings are byte strings, floats are left out.
\<close>

type_synonym timestamp = "nat \<times> nat \<times> nat \<times> nat \<times> nat \<times> nat"

datatype pyval =
    PNone
  | PBool bool
  | PInt int
  | PStr string
  | PList "pyval list"
  | PDict nat "(string \<times> pyval) list"
  | PObj nat
  | PDatetime timestamp bool
  | PIPNetwork string

type_synonym pydict = "nat \<times> (string \<times> pyval) list"

datatype exc_kind =
    KeyError | TypeError | AttributeError | UnboundLocalError | NameError
  | ValueError | AddrFormatError

text \<open>An exception has a class and the message that \<open>str(e)\<close> returns.\<close>

datatype pyexc = PyExc exc_kind string

text \<open>
  A call returns a value, raises, or exhausts the recursion budget of the model
  (\<open>OutOfFuel\<close> is not a Python exception: no \<open>except\<close> clause catches it).
\<close>

datatype 'a outcome = Ok 'a | Raise pyexc | OutOfFuel

definition and_then :: "'a outcome \<times> 's \<Rightarrow> ('a \<Rightarrow> 's \<Rightarrow> 'b outcome \<times> 's) \<Rightarrow> 'b outcome \<times> 's" where
  "and_then m f =
     (case m of
        (Ok x, s) \<Rightarrow> f x s
      | (Raise e, s) \<Rightarrow> (Raise e, s)
      | (OutOfFuel, s) \<Rightarrow> (OutOfFuel, s))"

definition exc_message :: "pyexc \<Rightarrow> string" where
  "exc_message e = (case e of PyExc _ msg \<Rightarrow> msg)"

definition quoted :: "string \<Rightarrow> string" where
  "quoted s = [CHR 0x27] @ s @ [CHR 0x27]"

section \<open>String formatting\<close>

function str_nat :: "nat \<Rightarrow> string" where
  "str_nat n =
     (if n < 10 then [''0123456789'' ! n]
      else str_nat (n div 10) @ [''0123456789'' ! (n mod 10)])"
  by pat_completeness auto
termination
  by (relation "measure id") auto

declare str_nat.simps [simp del]

definition str_int :: "int \<Rightarrow> string" where
  "str_int i = (if i < 0 then ''-'' @ str_nat (nat (- i)) else str_nat (nat i))"

function hex_digits :: "nat \<Rightarrow> string" where
  "hex_digits n =
     (if n < 16 then [''0123456789abcdef'' ! n]
      else hex_digits (n div 16) @ [''0123456789abcdef'' ! (n mod 16)])"
  by pat_completeness auto
termination
  by (relation "measure id") auto

declare hex_digits.simps [simp del]

definition hex :: "nat \<Rightarrow> string" where
  "hex n = ''0x'' @ hex_digits n"

section \<open>External collaborators\<close>

text \<open>
  The model classes, the type registry (\<open>models.get_model_class_from_name\<close>,
  \<open>models.get_model_classname_from_tablename\<close>), the Riak client, \<open>strptime\<close> and
  \<open>netaddr\<close> are not part of the two modules. They are parameters of the model:

  \<^item> \<open>known_class c\<close>: the registry resolves the class name \<open>c\<close> to a constructible class;
  \<^item> \<open>declared c k\<close>: a fresh instance of class \<open>c\<close> has an attribute \<open>k\<close> (\<open>hasattr\<close>);
  \<^item> \<open>setter c k v\<close>: what \<open>setattr(x, k, v)\<close> does on an instance of class \<open>c\<close>:
    \<open>None\<close> when the assignment is accepted, \<open>Some e\<close> when it raises \<open>e\<close>;
  \<^item> \<open>classname_of_table\<close>: \<open>get_model_classname_from_tablename\<close>;
  \<^item> \<open>parse_time\<close>: \<open>strptime\<close> with the format \<open>%b %d %Y %H:%M:%S\<close>, \<open>None\<close> when the
    string does not match;
  \<^item> \<open>parse_network\<close>: \<open>netaddr.IPNetwork\<close>, \<open>None\<close> when the address is refused;
  \<^item> \<open>str_other\<close>: \<open>str\<close> of a value that is not \<open>None\<close>, a bool, an int or a string;
  \<^item> \<open>store\<close>: the records of the key-value store, by bucket name and key. A record is
    a dict. The store is read, never written.
\<close>

record env =
  known_class :: "string \<Rightarrow> bool"
  declared :: "string \<Rightarrow> string \<Rightarrow> bool"
  setter :: "string \<Rightarrow> string \<Rightarrow> pyval \<Rightarrow> pyexc option"
  classname_of_table :: "string \<Rightarrow> pyval"
  parse_time :: "string \<Rightarrow> timestamp option"
  parse_network :: "pyval \<Rightarrow> string option"
  str_other :: "pyval \<Rightarrow> string"
  store :: "((string \<times> string) \<times> pydict) list"

definition py_str :: "env \<Rightarrow> pyval \<Rightarrow> string" where
  "py_str E v =
     (case v of
        PNone \<Rightarrow> ''None''
      | PBool b \<Rightarrow> (if b then ''True'' else ''False'')
      | PInt i \<Rightarrow> str_int i
      | PStr s \<Rightarrow> s
      | _ \<Rightarrow> str_other E v)"

section \<open>The state of a rehydration session\<close>

text \<open>
  A model instance has its class name, the attributes set on it, and the number of times
  its hook \<open>update_foreign_keys\<close> has been invoked. The heap is the list of the instances
  constructed so far; an address is an index of the list. The identity cache of an
  \<open>ObjectDesimplifier\<close> maps a key to an instance or to \<open>None\<close> (the value that
  \<open>spawn_empty_model\<close> returns for a null class name). The fetch log records each
  \<open>bucket(name).get(key)\<close> sent to the store.
\<close>

record model_object =
  klass :: string
  attrs :: "string \<rightharpoonup> pyval"
  fk_updates :: nat

record state =
  cache :: "string \<rightharpoonup> nat option"
  heap :: "model_object list"
  fetch_log :: "(string \<times> string) list"

type_synonym desimp = "pyval \<Rightarrow> state \<Rightarrow> pyval outcome \<times> state"

definition ref_val :: "nat option \<Rightarrow> pyval" where
  "ref_val r = (case r of None \<Rightarrow> PNone | Some a \<Rightarrow> PObj a)"

definition new_object :: "string \<Rightarrow> model_object" where
  "new_object c = \<lparr>klass = c, attrs = Map.empty, fk_updates = 0\<rparr>"

text \<open>
  Modelled from the spec: the relationship-fixup hook \<open>update_foreign_keys\<close> is
  implemented by the model classes (``implemented externally''); the model counts its
  invocations on each instance.
\<close>

definition update_foreign_keys :: "nat \<Rightarrow> state \<Rightarrow> state" where
  "update_foreign_keys a s =
     s\<lparr>heap := (heap s)[a := (heap s ! a)\<lparr>fk_updates := Suc (fk_updates (heap s ! a))\<rparr>]\<rparr>"

text \<open>
  \<open>setattr(current_model, key, value)\<close>. On \<open>None\<close> it raises \<open>AttributeError\<close>; on
  an instance the class decides (\<open>setter\<close>).
\<close>

definition setattr :: "env \<Rightarrow> nat option \<Rightarrow> string \<Rightarrow> pyval \<Rightarrow> state \<Rightarrow> unit outcome \<times> state" where
  "setattr E current_model key v s =
     (case current_model of
        None \<Rightarrow>
          (Raise (PyExc AttributeError (''NoneType object has no attribute '' @ quoted key)), s)
      | Some a \<Rightarrow>
          (case setter E (klass (heap s ! a)) key v of
             Some e \<Rightarrow> (Raise e, s)
           | None \<Rightarrow>
               (Ok (), s\<lparr>heap := (heap s)[a := (heap s ! a)\<lparr>attrs := (attrs (heap s ! a))(key \<mapsto> v)\<rparr>]\<rparr>)))"

definition hasattr :: "env \<Rightarrow> nat option \<Rightarrow> string \<Rightarrow> state \<Rightarrow> bool" where
  "hasattr E current_model name s =
     (case current_model of
        None \<Rightarrow> False
      | Some a \<Rightarrow> declared E (klass (heap s ! a)) name \<or> attrs (heap s ! a) name \<noteq> None)"

section \<open>Dict access\<close>

definition has_key :: "(string \<times> pyval) list \<Rightarrow> string \<Rightarrow> bool" where
  "has_key kvs k = (map_of kvs k \<noteq> None)"

definition getitem :: "(string \<times> pyval) list \<Rightarrow> string \<Rightarrow> pyval outcome" where
  "getitem kvs k =
     (case map_of kvs k of None \<Rightarrow> Raise (PyExc KeyError (quoted k)) | Some v \<Rightarrow> Ok v)"

section \<open>ObjectDesimplifier\<close>

text \<open>\<open>is_dict_and_has_key(obj, key)\<close>.\<close>

definition is_dict_and_has_key :: "pyval \<Rightarrow> string \<Rightarrow> bool" where
  "is_dict_and_has_key obj key = (case obj of PDict _ kvs \<Rightarrow> has_key kvs key | _ \<Rightarrow> False)"

text \<open>
  \<open>get_key(obj)\<close>, called on dicts only: \<open>"%s-%s" % (obj["tablename"], str(obj["id"]))\<close>
  when the dict has a table name (\<open>KeyError\<close> when it has no \<open>id\<close>), and the address of
  the dict, twice, otherwise.
\<close>

definition get_key :: "env \<Rightarrow> pydict \<Rightarrow> string outcome" where
  "get_key E obj =
     (if is_dict_and_has_key (PDict (fst obj) (snd obj)) ''tablename'' then
        (case getitem (snd obj) ''tablename'' of
           Ok table_name \<Rightarrow>
             (case getitem (snd obj) ''id'' of
                Ok key \<Rightarrow> Ok (py_str E table_name @ ''-'' @ py_str E key)
              | Raise e \<Rightarrow> Raise e
              | OutOfFuel \<Rightarrow> OutOfFuel)
         | Raise e \<Rightarrow> Raise e
         | OutOfFuel \<Rightarrow> OutOfFuel)
      else Ok (hex (fst obj) @ ''-'' @ hex (fst obj)))"

text \<open>
  The class-name field that \<open>spawn_empty_model\<close> reads: \<open>novabase_classname\<close>, else
  \<open>metadata_novabase_classname\<close>, else nothing is bound.
\<close>

definition class_name_field :: "(string \<times> pyval) list \<Rightarrow> pyval option" where
  "class_name_field kvs =
     (if has_key kvs ''novabase_classname'' then map_of kvs ''novabase_classname''
      else if has_key kvs ''metadata_novabase_classname'' then map_of kvs ''metadata_novabase_classname''
      else None)"

text \<open>
  Modelled from the spec: \<open>models.get_model_class_from_name\<close> is not part of the two
  modules; the registry ``returns a sentinel/failure when unknown''. The model returns the
  name of the class when the registry knows it and \<open>None\<close> for the sentinel, on which
  the call \<open>model()\<close> of \<open>spawn_empty_model\<close> raises \<open>TypeError\<close>.
\<close>

definition get_model_class_from_name :: "env \<Rightarrow> pyval \<Rightarrow> string option" where
  "get_model_class_from_name E name =
     (case name of PStr c \<Rightarrow> (if known_class E c then Some c else None) | _ \<Rightarrow> None)"

text \<open>
  \<open>spawn_empty_model(obj)\<close>. The method initialises \<open>model_class\<close>, not
  \<open>model_class_name\<close>: when the dict has neither class-name field, the test
  \<open>model_class_name is not None\<close> reads an unbound local. The instance is constructed
  before the cache is consulted.
\<close>

definition spawn_empty_model :: "env \<Rightarrow> pydict \<Rightarrow> state \<Rightarrow> nat option outcome \<times> state" where
  "spawn_empty_model E obj s =
     (case class_name_field (snd obj) of
        None \<Rightarrow>
          (Raise (PyExc UnboundLocalError
             ''local variable model_class_name referenced before assignment''), s)
      | Some PNone \<Rightarrow> (Ok None, s)
      | Some model_class_name \<Rightarrow>
          (case get_model_class_from_name E model_class_name of
             None \<Rightarrow> (Raise (PyExc TypeError ''NoneType object is not callable''), s)
           | Some model \<Rightarrow>
               (let model_object = length (heap s);
                    s1 = s\<lparr>heap := heap s @ [new_object model]\<rparr>
                in case get_key E obj of
                     Ok key \<Rightarrow>
                       (let s2 = (if cache s1 key = None
                                  then s1\<lparr>cache := (cache s1)(key \<mapsto> Some model_object)\<rparr>
                                  else s1)
                        in case cache s2 key of
                             Some r \<Rightarrow> (Ok r, s2)
                           | None \<Rightarrow> (Raise (PyExc KeyError (quoted key)), s2))
                   | Raise e \<Rightarrow> (Raise e, s1)
                   | OutOfFuel \<Rightarrow> (OutOfFuel, s1))))"

text \<open>
  The store access of \<open>update_nova_model\<close>:
  \<open>db_client.bucket(obj["tablename"]).get(str(obj["id"])).data\<close>. The client refuses a
  bucket name that is not a string, and the data of a missing record is \<open>None\<close>, which
  the loop \<open>for key in obj\<close> cannot iterate.
\<close>

definition fetch :: "env \<Rightarrow> string \<Rightarrow> string \<Rightarrow> state \<Rightarrow> pydict option \<times> state" where
  "fetch E bucket key s = (map_of (store E) (bucket, key), s\<lparr>fetch_log := fetch_log s @ [(bucket, key)]\<rparr>)"

definition fetch_record :: "env \<Rightarrow> pydict \<Rightarrow> state \<Rightarrow> pydict outcome \<times> state" where
  "fetch_record E obj s =
     (case getitem (snd obj) ''tablename'' of
        Ok (PStr bucket) \<Rightarrow>
          (case getitem (snd obj) ''id'' of
             Ok i \<Rightarrow>
               (case fetch E bucket (py_str E i) s of
                  (Some data, s1) \<Rightarrow> (Ok data, s1)
                | (None, s1) \<Rightarrow> (Raise (PyExc TypeError ''NoneType object is not iterable''), s1))
           | Raise e \<Rightarrow> (Raise e, s)
           | OutOfFuel \<Rightarrow> (OutOfFuel, s))
      | Ok _ \<Rightarrow> (Raise (PyExc TypeError ''Bucket name must be a string''), s)
      | Raise e \<Rightarrow> (Raise e, s)
      | OutOfFuel \<Rightarrow> (OutOfFuel, s))"

text \<open>
  The body of the \<open>try\<close> of the population loop: the value is desimplified a second time
  inside the \<open>try\<close> when the first result is not \<open>None\<close>.
\<close>

definition try_assign :: "env \<Rightarrow> desimp \<Rightarrow> nat option \<Rightarrow> string \<Rightarrow> pyval \<Rightarrow> pyval \<Rightarrow> state \<Rightarrow> unit outcome \<times> state" where
  "try_assign E D current_model key raw simplified_value s =
     (if simplified_value \<noteq> PNone
      then and_then (D raw s) (\<lambda>v s1. setattr E current_model key v s1)
      else setattr E current_model key raw s)"

text \<open>
  One iteration of \<open>for key in obj\<close>, with its \<open>except Exception\<close> handler: an exception
  whose message contains \<open>None is not list-like\<close> makes the handler assign \<open>[]\<close> (outside
  any \<open>try\<close>), any other exception is dropped.
\<close>

definition assign_field :: "env \<Rightarrow> desimp \<Rightarrow> nat option \<Rightarrow> string \<Rightarrow> pyval \<Rightarrow> state \<Rightarrow> unit outcome \<times> state" where
  "assign_field E D current_model key raw s =
     and_then (D raw s) (\<lambda>simplified_value s1.
       case try_assign E D current_model key raw simplified_value s1 of
         (Ok u, s2) \<Rightarrow> (Ok u, s2)
       | (OutOfFuel, s2) \<Rightarrow> (OutOfFuel, s2)
       | (Raise e, s2) \<Rightarrow>
           (if sublist ''None is not list-like'' (exc_message e)
            then setattr E current_model key (PList []) s2
            else (Ok (), s2)))"

text \<open>
  The loop \<open>for key in obj\<close>: the items of the dict in iteration order, \<open>obj[key]\<close> being
  the value of the item.
\<close>

fun populate :: "env \<Rightarrow> desimp \<Rightarrow> nat option \<Rightarrow> (string \<times> pyval) list \<Rightarrow> state \<Rightarrow> unit outcome \<times> state" where
  "populate E D current_model [] s = (Ok (), s)"
| "populate E D current_model ((key, raw) # items) s =
     (case assign_field E D current_model key raw s of
        (Ok _, s1) \<Rightarrow> populate E D current_model items s1
      | (Raise e, s1) \<Rightarrow> (Raise e, s1)
      | (OutOfFuel, s1) \<Rightarrow> (OutOfFuel, s1))"

text \<open>
  \<open>if hasattr(current_model, name) and obj.has_key(name): current_model.name = obj[name]\<close>,
  for \<open>user_id\<close> and \<open>project_id\<close>; the assignment is outside any \<open>try\<close>.
\<close>

definition copy_scoping_field :: "env \<Rightarrow> nat option \<Rightarrow> (string \<times> pyval) list \<Rightarrow> string \<Rightarrow> state \<Rightarrow> unit outcome \<times> state" where
  "copy_scoping_field E current_model kvs name s =
     (if hasattr E current_model name s \<and> has_key kvs name
      then (case getitem kvs name of
              Ok v \<Rightarrow> setattr E current_model name v s
            | Raise e \<Rightarrow> (Raise e, s)
            | OutOfFuel \<Rightarrow> (OutOfFuel, s))
      else (Ok (), s))"

text \<open>
  The part of \<open>update_nova_model\<close> after the record is chosen: the loop, the two scoping
  fields, the hook.
\<close>

definition fill_model :: "env \<Rightarrow> desimp \<Rightarrow> nat option \<Rightarrow> (string \<times> pyval) list \<Rightarrow> state \<Rightarrow> nat outcome \<times> state" where
  "fill_model E D current_model kvs s =
     and_then (populate E D current_model kvs s) (\<lambda>_ s1.
     and_then (copy_scoping_field E current_model kvs ''user_id'' s1) (\<lambda>_ s2.
     and_then (copy_scoping_field E current_model kvs ''project_id'' s2) (\<lambda>_ s3.
       case current_model of
         None \<Rightarrow> (Raise (PyExc AttributeError
                    ''NoneType object has no attribute update_foreign_keys''), s3)
       | Some a \<Rightarrow> (Ok a, update_foreign_keys a s3))))"

definition update_nova_model :: "env \<Rightarrow> desimp \<Rightarrow> pydict \<Rightarrow> state \<Rightarrow> nat outcome \<times> state" where
  "update_nova_model E D obj s =
     (case get_key E obj of
        Ok key \<Rightarrow>
          (case cache s key of
             None \<Rightarrow> (Raise (PyExc KeyError (quoted key)), s)
           | Some current_model \<Rightarrow>
               and_then
                 (if has_key (snd obj) ''simplify_strategy'' then fetch_record E obj s else (Ok obj, s))
                 (\<lambda>obj1 s1. fill_model E D current_model (snd obj1) s1))
      | Raise e \<Rightarrow> (Raise e, s)
      | OutOfFuel \<Rightarrow> (OutOfFuel, s))"

text \<open>
  \<open>novabase_desimplify(obj)\<close>: the result of \<open>update_nova_model\<close> is dropped, the method
  returns \<open>self.cache[key]\<close>.
\<close>

definition novabase_desimplify :: "env \<Rightarrow> desimp \<Rightarrow> pydict \<Rightarrow> state \<Rightarrow> pyval outcome \<times> state" where
  "novabase_desimplify E D obj s =
     (case get_key E obj of
        Ok key \<Rightarrow>
          and_then
            (if cache s key = None
             then and_then (spawn_empty_model E obj s) (\<lambda>r s1.
                  and_then (update_nova_model E D obj (s1\<lparr>cache := (cache s1)(key \<mapsto> r)\<rparr>))
                    (\<lambda>_ s2. (Ok (), s2)))
             else (Ok (), s))
            (\<lambda>_ s3. case cache s3 key of
                       Some r \<Rightarrow> (Ok (ref_val r), s3)
                     | None \<Rightarrow> (Raise (PyExc KeyError (quoted key)), s3))
      | Raise e \<Rightarrow> (Raise e, s)
      | OutOfFuel \<Rightarrow> (OutOfFuel, s))"

text \<open>\<open>datetime_desimplify(value)\<close> and \<open>ipnetwork_desimplify(value)\<close>.\<close>

definition datetime_desimplify :: "env \<Rightarrow> (string \<times> pyval) list \<Rightarrow> pyval outcome" where
  "datetime_desimplify E kvs =
     (case getitem kvs ''value'' of
        Ok (PStr text) \<Rightarrow>
          (case parse_time E text of
             None \<Rightarrow> Raise (PyExc ValueError
                       (''time data '' @ quoted text @ '' does not match format''))
           | Some t \<Rightarrow>
               (case getitem kvs ''timezone'' of
                  Ok tz \<Rightarrow> Ok (PDatetime t (tz = PStr ''UTC''))
                | Raise e \<Rightarrow> Raise e
                | OutOfFuel \<Rightarrow> OutOfFuel))
      | Ok _ \<Rightarrow> Raise (PyExc TypeError ''must be string'')
      | Raise e \<Rightarrow> Raise e
      | OutOfFuel \<Rightarrow> OutOfFuel)"

definition ipnetwork_desimplify :: "env \<Rightarrow> (string \<times> pyval) list \<Rightarrow> pyval outcome" where
  "ipnetwork_desimplify E kvs =
     (case getitem kvs ''value'' of
        Ok v \<Rightarrow>
          (case parse_network E v of
             None \<Rightarrow> Raise (PyExc AddrFormatError (''invalid IPNetwork '' @ py_str E v))
           | Some cidr \<Rightarrow> Ok (PIPNetwork cidr))
      | Raise e \<Rightarrow> Raise e
      | OutOfFuel \<Rightarrow> OutOfFuel)"

text \<open>The list branch of \<open>desimplify\<close>: \<open>list_result += [self.desimplify(item)]\<close>.\<close>

fun desimplify_items :: "desimp \<Rightarrow> pyval list \<Rightarrow> state \<Rightarrow> pyval list outcome \<times> state" where
  "desimplify_items D [] s = (Ok [], s)"
| "desimplify_items D (item # items) s =
     (case D item s of
        (Ok x, s1) \<Rightarrow>
          (case desimplify_items D items s1 of
             (Ok xs, s2) \<Rightarrow> (Ok (x # xs), s2)
           | (Raise e, s2) \<Rightarrow> (Raise e, s2)
           | (OutOfFuel, s2) \<Rightarrow> (OutOfFuel, s2))
      | (Raise e, s1) \<Rightarrow> (Raise e, s1)
      | (OutOfFuel, s1) \<Rightarrow> (OutOfFuel, s1))"

text \<open>
  The dispatch of \<open>desimplify(obj)\<close>. The three tests on the strategy are mutually
  exclusive, so the chain of \<open>if\<close>s is written as one.
\<close>

definition dispatch :: "env \<Rightarrow> desimp \<Rightarrow> pyval \<Rightarrow> state \<Rightarrow> pyval outcome \<times> state" where
  "dispatch E D obj s =
     (case obj of
        PDict i kvs \<Rightarrow>
          (if has_key kvs ''simplify_strategy'' then
             (if map_of kvs ''simplify_strategy'' = Some (PStr ''datetime'')
                then (datetime_desimplify E kvs, s)
              else if map_of kvs ''simplify_strategy'' = Some (PStr ''ipnetwork'')
                then (ipnetwork_desimplify E kvs, s)
              else if map_of kvs ''simplify_strategy'' = Some (PStr ''novabase'')
                then novabase_desimplify E D (i, kvs) s
              else (Ok obj, s))
           else if has_key kvs ''novabase_classname'' then novabase_desimplify E D (i, kvs) s
           else if has_key kvs ''metadata_novabase_classname'' then novabase_desimplify E D (i, kvs) s
           else (Ok obj, s))
      | PList items \<Rightarrow>
          and_then (desimplify_items D items s) (\<lambda>list_result s1. (Ok (PList list_result), s1))
      | _ \<Rightarrow> (Ok obj, s))"

text \<open>
  The end of \<open>desimplify\<close>: \<open>if isinstance(result, models.NovaBase):
  result.update_foreign_keys()\<close>. The constructible classes are the model classes, which
  derive from \<open>NovaBase\<close>.
\<close>

definition fixup :: "pyval \<Rightarrow> state \<Rightarrow> pyval outcome \<times> state" where
  "fixup result s =
     (case result of
        PObj a \<Rightarrow> (Ok result, update_foreign_keys a s)
      | _ \<Rightarrow> (Ok result, s))"

definition desimplify_body :: "env \<Rightarrow> desimp \<Rightarrow> pyval \<Rightarrow> state \<Rightarrow> pyval outcome \<times> state" where
  "desimplify_body E D obj s = and_then (dispatch E D obj s) fixup"

text \<open>
  \<open>desimplify\<close> with a recursion budget: every nested call of \<open>self.desimplify\<close> spends one
  unit, and the methods between two such calls take the nested \<open>desimplify\<close> as \<open>D\<close>.
\<close>

primrec desimplify :: "env \<Rightarrow> nat \<Rightarrow> pyval \<Rightarrow> state \<Rightarrow> pyval outcome \<times> state" where
  "desimplify E 0 obj s = (OutOfFuel, s)"
| "desimplify E (Suc n) obj s = desimplify_body E (desimplify E n) obj s"

section \<open>LazyReference\<close>

text \<open>
  A lazy reference has the table name \<open>base\<close>, the \<open>id\<close> and its own cache (the memo).
  Its desimplifier is the session state that the methods below take and return next to
  the reference.
\<close>

record lazy_reference =
  lr_base :: string
  lr_id :: pyval
  lr_cache :: "string \<rightharpoonup> nat"

definition lazy_init :: "string \<Rightarrow> pyval \<Rightarrow> lazy_reference" where
  "lazy_init b i = \<lparr>lr_base = b, lr_id = i, lr_cache = Map.empty\<rparr>"

definition resolve_model_name :: "env \<Rightarrow> lazy_reference \<Rightarrow> pyval" where
  "resolve_model_name E lr = classname_of_table E (lr_base lr)"

text \<open>\<open>LazyReference.get_key\<close>: \<open>"%s_%s" % (self.resolve_model_name(), str(self.id))\<close>.\<close>

definition lazy_get_key :: "env \<Rightarrow> lazy_reference \<Rightarrow> string" where
  "lazy_get_key E lr = py_str E (resolve_model_name E lr) @ ''_'' @ py_str E (lr_id lr)"

text \<open>
  \<open>LazyReference.spawn_empty_model(obj)\<close>, on the data of the fetched record: \<open>None\<close>
  for a missing record, on which the test \<open>"novabase_classname" in obj\<close> raises.
\<close>

definition lazy_spawn_empty_model ::
  "env \<Rightarrow> pydict option \<Rightarrow> lazy_reference \<times> state \<Rightarrow> nat option outcome \<times> (lazy_reference \<times> state)" where
  "lazy_spawn_empty_model E data w =
     (case w of (lr, s) \<Rightarrow>
        (case data of
           None \<Rightarrow> (Raise (PyExc TypeError ''argument of type NoneType is not iterable''), w)
         | Some obj \<Rightarrow>
             (case class_name_field (snd obj) of
                None \<Rightarrow>
                  (Raise (PyExc UnboundLocalError
                     ''local variable model_class_name referenced before assignment''), w)
              | Some PNone \<Rightarrow> (Ok None, w)
              | Some model_class_name \<Rightarrow>
                  (case get_model_class_from_name E model_class_name of
                     None \<Rightarrow> (Raise (PyExc TypeError ''NoneType object is not callable''), w)
                   | Some model \<Rightarrow>
                       (let key = lazy_get_key E lr;
                            model_object = length (heap s);
                            s1 = s\<lparr>heap := heap s @ [new_object model]\<rparr>;
                            lr1 = (if lr_cache lr key = None
                                   then lr\<lparr>lr_cache := (lr_cache lr)(key \<mapsto> model_object)\<rparr>
                                   else lr)
                        in (Ok (lr_cache lr1 key), (lr1, s1)))))))"

text \<open>
  \<open>LazyReference.update_nova_model(obj)\<close>. The module binds its client to the name
  \<open>dbClient\<close>; the branch for a record with a strategy tag reads \<open>db_client\<close>, which the
  module does not define.
\<close>

definition lazy_update_nova_model ::
  "env \<Rightarrow> desimp \<Rightarrow> pydict \<Rightarrow> lazy_reference \<times> state \<Rightarrow> nat outcome \<times> (lazy_reference \<times> state)" where
  "lazy_update_nova_model E D obj w =
     (case w of (lr, s) \<Rightarrow>
        (case lr_cache lr (lazy_get_key E lr) of
           None \<Rightarrow> (Raise (PyExc KeyError (quoted (lazy_get_key E lr))), w)
         | Some current_model \<Rightarrow>
             (if has_key (snd obj) ''simplify_strategy''
              then (Raise (PyExc NameError ''global name db_client is not defined''), w)
              else (case fill_model E D (Some current_model) (snd obj) s of
                      (r, s1) \<Rightarrow> (r, (lr, s1))))))"

text \<open>\<open>LazyReference.load\<close>: the fetch goes through \<open>dbClient\<close>, with \<open>self.base\<close> and \<open>str(self.id)\<close>.\<close>

definition lazy_load ::
  "env \<Rightarrow> desimp \<Rightarrow> lazy_reference \<times> state \<Rightarrow> pyval outcome \<times> (lazy_reference \<times> state)" where
  "lazy_load E D w =
     (case w of (lr, s) \<Rightarrow>
        (case fetch E (lr_base lr) (py_str E (lr_id lr)) s of
           (data, s1) \<Rightarrow>
             and_then (lazy_spawn_empty_model E data (lr, s1)) (\<lambda>_ w1.
             and_then (case data of
                         Some obj \<Rightarrow> lazy_update_nova_model E D obj w1
                       | None \<Rightarrow> (Raise (PyExc TypeError ''argument of type NoneType is not iterable''), w1))
               (\<lambda>_ w2. case lr_cache (fst w2) (lazy_get_key E lr) of
                          Some a \<Rightarrow> (Ok (PObj a), w2)
                        | None \<Rightarrow> (Raise (PyExc KeyError (quoted (lazy_get_key E lr))), w2)))))"

text \<open>\<open>LazyReference.get_complex_ref\<close>: the resolution.\<close>

definition get_complex_ref ::
  "env \<Rightarrow> desimp \<Rightarrow> lazy_reference \<times> state \<Rightarrow> pyval outcome \<times> (lazy_reference \<times> state)" where
  "get_complex_ref E D w =
     and_then
       (if lr_cache (fst w) (lazy_get_key E (fst w)) = None
        then lazy_load E D w
        else (Ok PNone, w))
       (\<lambda>_ w1. case lr_cache (fst w1) (lazy_get_key E (fst w)) of
                  Some a \<Rightarrow> (Ok (PObj a), w1)
                | None \<Rightarrow> (Raise (PyExc KeyError (quoted (lazy_get_key E (fst w)))), w1))"

text \<open>\<open>LazyReference.__str__\<close> and \<open>LazyReference.__repr__\<close>.\<close>

definition lazy_str :: "env \<Rightarrow> lazy_reference \<times> state \<Rightarrow> string outcome \<times> (lazy_reference \<times> state)" where
  "lazy_str E w = (Ok (''Lazy('' @ lazy_get_key E (fst w) @ '')''), w)"

definition lazy_repr :: "env \<Rightarrow> lazy_reference \<times> state \<Rightarrow> string outcome \<times> (lazy_reference \<times> state)" where
  "lazy_repr E w = (Ok (''Lazy('' @ lazy_get_key E (fst w) @ '')''), w)"

section \<open>A small installation\<close>

text \<open>
  Two model classes, \<open>Instance\<close> and \<open>Node\<close>. The attribute \<open>tags\<close> is a relationship
  collection that refuses \<open>None\<close> with the message of SQLAlchemy, the attribute \<open>locked\<close>
  cannot be set, every other assignment is accepted. The store holds a record of the
  table \<open>instances\<close> that carries a strategy tag and a plain record of the table \<open>nodes\<close>.
\<close>

definition demo_setter :: "string \<Rightarrow> string \<Rightarrow> pyval \<Rightarrow> pyexc option" where
  "demo_setter c k v =
     (if k = ''tags'' \<and> v = PNone
        then Some (PyExc TypeError ''Incompatible collection type: None is not list-like'')
      else if k = ''locked'' then Some (PyExc AttributeError ''can not set attribute'')
      else None)"

definition demo_parse_time :: "string \<Rightarrow> timestamp option" where
  "demo_parse_time text = (if text = ''Jan 02 2020 03:04:05'' then Some (2020, 1, 2, 3, 4, 5) else None)"

definition demo_store :: "((string \<times> string) \<times> pydict) list" where
  "demo_store =
     [((''instances'', ''1''),
         (10, [(''simplify_strategy'', PStr ''novabase''), (''tablename'', PStr ''instances''),
               (''id'', PInt 1), (''novabase_classname'', PStr ''Instance'')])),
      ((''nodes'', ''7''),
         (11, [(''novabase_classname'', PStr ''Node''), (''id'', PInt 7),
               (''hostname'', PStr ''n7'')]))]"

definition demo_env :: env where
  "demo_env =
     \<lparr>known_class = (\<lambda>c. c = ''Instance'' \<or> c = ''Node''),
      declared = (\<lambda>c k. False),
      setter = demo_setter,
      classname_of_table = (\<lambda>t. if t = ''instances'' then PStr ''Instance''
                                 else if t = ''nodes'' then PStr ''Node'' else PNone),
      parse_time = demo_parse_time,
      parse_network = (\<lambda>v. None),
      str_other = (\<lambda>v. ''object''),
      store = demo_store\<rparr>"

definition empty_state :: state where
  "empty_state = \<lparr>cache = Map.empty, heap = [], fetch_log = []\<rparr>"

definition one_instance :: state where
  "one_instance = \<lparr>cache = Map.empty, heap = [new_object ''Instance''], fetch_log = []\<rparr>"




definition self_referring :: pyval where
  "self_referring =
     PDict 1 [(''novabase_classname'', PStr ''Instance''), (''tablename'', PStr ''instances''),
              (''id'', PInt 1),
              (''me'', PDict 2 [(''simplify_strategy'', PStr ''novabase''),
                                (''novabase_classname'', PStr ''Instance''),
                                (''tablename'', PStr ''instances''), (''id'', PInt 1)]),
              (''name'', PStr ''vm'')]"

definition referring_other_table :: pyval where
  "referring_other_table =
     PDict 1 [(''novabase_classname'', PStr ''Instance''), (''tablename'', PStr ''instances''),
              (''id'', PInt 1),
              (''me'', PDict 2 [(''novabase_classname'', PStr ''Instance''),
                                (''tablename'', PStr ''instances_archive''), (''id'', PInt 1)])]"

text \<open>
  The same installation with a network parser that knows one network.
\<close>

definition network_env :: env where
  "network_env =
     demo_env\<lparr>parse_network := (\<lambda>v. if v = PStr ''10.0.0.0/24'' then Some ''10.0.0.0/24'' else None)\<rparr>"

text \<open>
  The same installation with classes whose attribute \<open>user_id\<close> is a read-only
  property: \<open>hasattr\<close> finds it and every assignment to it raises \<open>AttributeError\<close>.
  The items of a mapping of an instance that has the field \<open>user_id\<close>.
\<close>

definition readonly_env :: env where
  "readonly_env =
     demo_env\<lparr>declared := (\<lambda>c k. k = ''user_id''),
              setter := (\<lambda>c k v. if k = ''user_id''
                                  then Some (PyExc AttributeError ''can not set attribute'')
                                  else demo_setter c k v)\<rparr>"

definition owned_instance :: "(string \<times> pyval) list" where
  "owned_instance =
     [(''novabase_classname'', PStr ''Instance''), (''tablename'', PStr ''instances''),
      (''id'', PInt 1), (''user_id'', PStr ''u1'')]"


section \<open>Relations between session states\<close>

text \<open>
  \<open>evolves_ex X s s'\<close>: from \<open>s\<close> to \<open>s'\<close> the cache has only gained keys, the heap has
  only gained instances, and an instance of \<open>s\<close> has kept its class, has not lost hook
  invocations and, unless its address is in \<open>X\<close>, has kept its attributes.
\<close>

definition evolves_ex :: "nat set \<Rightarrow> state \<Rightarrow> state \<Rightarrow> bool" where
  "evolves_ex X s s' \<longleftrightarrow>
     cache s \<subseteq>\<^sub>m cache s' \<and>
     length (heap s) \<le> length (heap s') \<and>
     (\<forall>a < length (heap s).
        klass (heap s' ! a) = klass (heap s ! a) \<and>
        fk_updates (heap s ! a) \<le> fk_updates (heap s' ! a) \<and>
        (a \<notin> X \<longrightarrow> attrs (heap s' ! a) = attrs (heap s ! a)))"

definition preserves :: "desimp \<Rightarrow> bool" where
  "preserves D \<longleftrightarrow> (\<forall>v s r s'. D v s = (r, s') \<longrightarrow> evolves_ex {} s s')"

text \<open>The instance that \<open>update_nova_model(obj)\<close> populates: \<open>self.cache[self.get_key(obj)]\<close>.\<close>

definition current :: "env \<Rightarrow> pydict \<Rightarrow> state \<Rightarrow> nat set" where
  "current E obj s = {a. \<exists>key. get_key E obj = Ok key \<and> cache s key = Some (Some a)}"

text \<open>
  The dicts that \<open>desimplify\<close> hands to \<open>novabase_desimplify\<close>: the strategy tag is
  \<open>novabase\<close>, or there is no strategy tag and there is a class-name field.
\<close>

definition tagged_object :: "(string \<times> pyval) list \<Rightarrow> bool" where
  "tagged_object kvs \<longleftrightarrow>
     (if has_key kvs ''simplify_strategy''
      then map_of kvs ''simplify_strategy'' = Some (PStr ''novabase'')
      else has_key kvs ''novabase_classname'' \<or> has_key kvs ''metadata_novabase_classname'')"


section \<open>Recursion budget and termination measure\<close>

text \<open>
  \<open>extends D D'\<close>: wherever the nested \<open>desimplify\<close> \<open>D\<close> finishes within its budget,
  \<open>D'\<close> gives the same outcome and state.
\<close>

definition extends :: "desimp \<Rightarrow> desimp \<Rightarrow> bool" where
  "extends D D' \<longleftrightarrow> (\<forall>v s r s'. D v s = (r, s') \<longrightarrow> r \<noteq> OutOfFuel \<longrightarrow> D' v s = (r, s'))"

text \<open>
  The keys under which the records of the store would be cached, and the number of them
  that a cache does not hold yet: each fetch of \<open>update_nova_model\<close> that finds a record
  lowers this number.
\<close>

definition store_keys :: "env \<Rightarrow> string set" where
  "store_keys E = (\<lambda>((bucket, key), data). bucket @ ''-'' @ key) ` set (store E)"

definition pending :: "env \<Rightarrow> state \<Rightarrow> nat" where
  "pending E s = card (store_keys E - dom (cache s))"

definition finishes :: "env \<Rightarrow> pyval \<Rightarrow> state \<Rightarrow> bool" where
  "finishes E v s \<longleftrightarrow> (\<exists>n. fst (desimplify E n v s) \<noteq> OutOfFuel)"

text \<open>
  \<open>keeps a f s s'\<close>: the instance at address \<open>a\<close>, if \<open>s\<close> has it, is still there in
  \<open>s'\<close> with the same value of the attribute \<open>f\<close>.
\<close>

definition keeps :: "nat \<Rightarrow> string \<Rightarrow> state \<Rightarrow> state \<Rightarrow> bool" where
  "keeps a f s s' \<longleftrightarrow>
     (a < length (heap s) \<longrightarrow>
        a < length (heap s') \<and> attrs (heap s' ! a) f = attrs (heap s ! a) f)"

section \<open>Nested calls\<close>






section \<open>Basic facts\<close>

lemma and_then_simps [simp]:
  "and_then (Ok x, s) f = f x s"
  "and_then (Raise e, s) f = (Raise e, s)"
  "and_then (OutOfFuel, s) f = (OutOfFuel, s)"
  by (simp_all add: and_then_def)

lemmas engine_defs =
  desimplify_body_def dispatch_def fixup_def novabase_desimplify_def update_nova_model_def
  fill_model_def copy_scoping_field_def assign_field_def try_assign_def spawn_empty_model_def
  fetch_record_def fetch_def get_key_def is_dict_and_has_key_def has_key_def getitem_def
  class_name_field_def get_model_class_from_name_def setattr_def hasattr_def
  update_foreign_keys_def new_object_def ref_val_def py_str_def str_int_def hex_def
  datetime_desimplify_def ipnetwork_desimplify_def exc_message_def quoted_def

lemmas lazy_defs =
  get_complex_ref_def lazy_load_def lazy_update_nova_model_def lazy_spawn_empty_model_def
  lazy_get_key_def resolve_model_name_def lazy_init_def lazy_str_def lazy_repr_def

lemmas demo_defs = demo_env_def demo_setter_def demo_parse_time_def demo_store_def empty_state_def


lemma and_then_Ok_elim:
  assumes "and_then m f = (Ok y, t)"
  obtains x s where "m = (Ok x, s)" and "f x s = (Ok y, t)"
  using assms by (cases m) (auto simp: and_then_def split: outcome.splits)

lemma and_then_cases:
  assumes "and_then m f = (r, t)"
  obtains (ok) x s where "m = (Ok x, s)" and "f x s = (r, t)"
        | (raise) e where "m = (Raise e, t)" and "r = Raise e"
        | (fuel) "m = (OutOfFuel, t)" and "r = OutOfFuel"
proof (cases m)
  case (Pair a s)
  with assms show ?thesis
    by (cases a) (auto intro: ok raise fuel)
qed

section \<open>The dispatch of desimplify\<close>

text \<open>
  C10. A dict that has no \<open>simplify_strategy\<close>, no \<open>novabase_classname\<close> and no
  \<open>metadata_novabase_classname\<close> is returned as it is, the same dict object with the
  same items, and the session state is unchanged. The body of \<open>desimplify\<close> gives this
  result whatever the nested \<open>desimplify\<close> is, so no nested call is made and no value
  of the dict is desimplified.
\<close>

theorem desimplify_plain_dict:
  assumes "\<not> has_key kvs ''simplify_strategy''"
    and "\<not> has_key kvs ''novabase_classname''"
    and "\<not> has_key kvs ''metadata_novabase_classname''"
  shows "desimplify_body E D (PDict i kvs) s = (Ok (PDict i kvs), s)
       \<and> desimplify E (Suc n) (PDict i kvs) s = (Ok (PDict i kvs), s)"
  using assms by (simp add: desimplify_body_def dispatch_def fixup_def)

theorem desimplify_plain_dict_witness:
  "desimplify demo_env (Suc 0)
     (PDict 1 [(''payload'', PDict 2 [(''novabase_classname'', PStr ''Instance''), (''id'', PInt 1)])])
     empty_state
   = (Ok (PDict 1 [(''payload'', PDict 2 [(''novabase_classname'', PStr ''Instance''), (''id'', PInt 1)])]),
      empty_state)"
  using desimplify_plain_dict [of "[(''payload'', PDict 2 [(''novabase_classname'', PStr ''Instance''), (''id'', PInt 1)])]" demo_env "desimplify demo_env 0" 1 empty_state 0]
  by (simp add: has_key_def)

lemma datetime_desimplify_result:
  "datetime_desimplify E kvs = Ok v \<Longrightarrow> \<exists>t utc. v = PDatetime t utc"
  by (auto simp: datetime_desimplify_def split: outcome.splits pyval.splits option.splits)

lemma ipnetwork_desimplify_result:
  "ipnetwork_desimplify E kvs = Ok v \<Longrightarrow> \<exists>cidr. v = PIPNetwork cidr"
  by (auto simp: ipnetwork_desimplify_def split: outcome.splits option.splits)

lemma handler_then_fixup:
  assumes "\<And>v. h = Ok v \<Longrightarrow> \<forall>a. v \<noteq> PObj a"
  shows "and_then (h, s) fixup = (h, s)"
proof (cases h)
  case (Ok v)
  with assms have "\<forall>a. v \<noteq> PObj a" by simp
  then have "fixup v s = (Ok v, s)" by (cases v) (simp_all add: fixup_def)
  with Ok show ?thesis by simp
qed simp_all

text \<open>
  C5, as the code has it. For a dict with a class-name field, \<open>desimplify\<close> is decided by
  the strategy tag, which is tested before the class-name fields: without a tag, or with
  the tag \<open>novabase\<close>, the dict is reconstructed as an object (\<open>novabase_desimplify\<close>,
  then the hook); with the tag \<open>datetime\<close> the result is the one of the datetime handler,
  with the tag \<open>ipnetwork\<close> the one of the network handler, and with any other tag the
  dict is returned as it is and the state is unchanged.
\<close>

theorem strategy_tag_decides:
  assumes "has_key kvs ''novabase_classname'' \<or> has_key kvs ''metadata_novabase_classname''"
  shows "desimplify E (Suc n) (PDict i kvs) s =
     (if \<not> has_key kvs ''simplify_strategy''
           \<or> map_of kvs ''simplify_strategy'' = Some (PStr ''novabase'')
        then and_then (novabase_desimplify E (desimplify E n) (i, kvs) s) fixup
      else if map_of kvs ''simplify_strategy'' = Some (PStr ''datetime'')
        then (datetime_desimplify E kvs, s)
      else if map_of kvs ''simplify_strategy'' = Some (PStr ''ipnetwork'')
        then (ipnetwork_desimplify E kvs, s)
      else (Ok (PDict i kvs), s))"
proof -
  have dt: "and_then (datetime_desimplify E kvs, s) fixup = (datetime_desimplify E kvs, s)"
    by (rule handler_then_fixup) (auto dest: datetime_desimplify_result)
  have ip: "and_then (ipnetwork_desimplify E kvs, s) fixup = (ipnetwork_desimplify E kvs, s)"
    by (rule handler_then_fixup) (auto dest: ipnetwork_desimplify_result)
  have same: "fixup (PDict i kvs) s = (Ok (PDict i kvs), s)"
    by (simp add: fixup_def)
  from assms show ?thesis
    by (auto simp: desimplify_body_def dispatch_def dt ip same has_key_def)
qed

theorem strategy_tag_decides_witness:
  "desimplify demo_env (Suc 2)
     (PDict 1 [(''novabase_classname'', PStr ''Instance''), (''tablename'', PStr ''instances''),
               (''id'', PInt 1)]) empty_state
   = and_then (novabase_desimplify demo_env (desimplify demo_env 2)
       (1, [(''novabase_classname'', PStr ''Instance''), (''tablename'', PStr ''instances''),
            (''id'', PInt 1)]) empty_state) fixup
   \<and> fst (novabase_desimplify demo_env (desimplify demo_env 2)
       (1, [(''novabase_classname'', PStr ''Instance''), (''tablename'', PStr ''instances''),
            (''id'', PInt 1)]) empty_state) = Ok (PObj 0)
   \<and> desimplify network_env (Suc 0)
       (PDict 2 [(''simplify_strategy'', PStr ''ipnetwork''), (''value'', PStr ''10.0.0.0/24''),
                 (''novabase_classname'', PStr ''Instance'')]) empty_state
     = (Ok (PIPNetwork ''10.0.0.0/24''), empty_state)
   \<and> desimplify demo_env (Suc 0)
       (PDict 3 [(''simplify_strategy'', PStr ''archived''), (''novabase_classname'', PStr ''Instance''),
                 (''tablename'', PStr ''instances''), (''id'', PInt 1)]) empty_state
     = (Ok (PDict 3 [(''simplify_strategy'', PStr ''archived''), (''novabase_classname'', PStr ''Instance''),
                 (''tablename'', PStr ''instances''), (''id'', PInt 1)]), empty_state)"
proof -
  have obj: "fst (novabase_desimplify demo_env (desimplify demo_env 2)
       (1, [(''novabase_classname'', PStr ''Instance''), (''tablename'', PStr ''instances''),
            (''id'', PInt 1)]) empty_state) = Ok (PObj 0)"
    by (simp add: numeral_2_eq_2 engine_defs demo_defs str_nat.simps sublist_code)
  have untagged: "desimplify demo_env (Suc 2)
     (PDict 1 [(''novabase_classname'', PStr ''Instance''), (''tablename'', PStr ''instances''),
               (''id'', PInt 1)]) empty_state
   = and_then (novabase_desimplify demo_env (desimplify demo_env 2)
       (1, [(''novabase_classname'', PStr ''Instance''), (''tablename'', PStr ''instances''),
            (''id'', PInt 1)]) empty_state) fixup"
    using strategy_tag_decides [of "[(''novabase_classname'', PStr ''Instance''),
      (''tablename'', PStr ''instances''), (''id'', PInt 1)]" demo_env 2 1 empty_state]
    by (simp add: has_key_def)
  have network: "desimplify network_env (Suc 0)
       (PDict 2 [(''simplify_strategy'', PStr ''ipnetwork''), (''value'', PStr ''10.0.0.0/24''),
                 (''novabase_classname'', PStr ''Instance'')]) empty_state
     = (Ok (PIPNetwork ''10.0.0.0/24''), empty_state)"
    using strategy_tag_decides [of "[(''simplify_strategy'', PStr ''ipnetwork''),
      (''value'', PStr ''10.0.0.0/24''), (''novabase_classname'', PStr ''Instance'')]"
      network_env 0 2 empty_state]
    by (simp add: has_key_def ipnetwork_desimplify_def getitem_def network_env_def)
  have other: "desimplify demo_env (Suc 0)
       (PDict 3 [(''simplify_strategy'', PStr ''archived''), (''novabase_classname'', PStr ''Instance''),
                 (''tablename'', PStr ''instances''), (''id'', PInt 1)]) empty_state
     = (Ok (PDict 3 [(''simplify_strategy'', PStr ''archived''), (''novabase_classname'', PStr ''Instance''),
                 (''tablename'', PStr ''instances''), (''id'', PInt 1)]), empty_state)"
    using strategy_tag_decides [of "[(''simplify_strategy'', PStr ''archived''),
      (''novabase_classname'', PStr ''Instance''), (''tablename'', PStr ''instances''),
      (''id'', PInt 1)]" demo_env 0 3 empty_state]
    by (simp add: has_key_def)
  from untagged obj network other show ?thesis by (intro conjI)
qed

text \<open>
  A dict with the tag \<open>datetime\<close> and a class-name field becomes a datetime; no object
  is constructed and the cache stays empty.
\<close>

theorem datetime_tag_wins_counterexample:
  "desimplify demo_env 3
     (PDict 1 [(''simplify_strategy'', PStr ''datetime''), (''value'', PStr ''Jan 02 2020 03:04:05''),
               (''timezone'', PStr ''UTC''), (''novabase_classname'', PStr ''Instance''),
               (''tablename'', PStr ''instances''), (''id'', PInt 1)])
     empty_state
   = (Ok (PDatetime (2020, 1, 2, 3, 4, 5) True), empty_state)"
  by (simp add: numeral_3_eq_3 desimplify_body_def dispatch_def has_key_def datetime_desimplify_def getitem_def
      demo_env_def demo_parse_time_def fixup_def)

section \<open>Unresolvable types\<close>

text \<open>
  C3. A reference descriptor without a class-name field: \<open>spawn_empty_model\<close> raises
  \<open>UnboundLocalError\<close> instead of returning \<open>None\<close>, and the exception leaves
  \<open>desimplify\<close>.
\<close>

theorem spawn_without_classname_raises:
  "spawn_empty_model demo_env
     (1, [(''simplify_strategy'', PStr ''novabase''), (''tablename'', PStr ''instances''), (''id'', PInt 1)])
     empty_state
   = (Raise (PyExc UnboundLocalError ''local variable model_class_name referenced before assignment''),
      empty_state)
   \<and> fst (desimplify demo_env 3
       (PDict 1 [(''simplify_strategy'', PStr ''novabase''), (''tablename'', PStr ''instances''),
                 (''id'', PInt 1)]) empty_state)
   = Raise (PyExc UnboundLocalError ''local variable model_class_name referenced before assignment'')"
  by (simp add: numeral_3_eq_3 engine_defs demo_defs)

section \<open>Lazy references\<close>

lemma lazy_spawn_keeps_ref:
  "lazy_spawn_empty_model E data (lr, s) = (r, (lr', s')) \<Longrightarrow>
     lr_base lr' = lr_base lr \<and> lr_id lr' = lr_id lr"
  by (auto simp: lazy_spawn_empty_model_def Let_def
      split: option.splits pyval.splits if_splits)

lemma lazy_update_keeps_ref:
  "lazy_update_nova_model E D obj (lr, s) = (r, (lr', s')) \<Longrightarrow> lr' = lr"
  by (auto simp: lazy_update_nova_model_def split: option.splits if_splits prod.splits)

lemma lazy_load_keeps_ref:
  assumes "lazy_load E D (lr, s) = (r, (lr', s'))"
  shows "lr_base lr' = lr_base lr \<and> lr_id lr' = lr_id lr"
proof -
  obtain data s1 where f: "fetch E (lr_base lr) (py_str E (lr_id lr)) s = (data, s1)"
    by (cases "fetch E (lr_base lr) (py_str E (lr_id lr)) s")
  let ?upd = "\<lambda>w1. case data of
                 Some obj \<Rightarrow> lazy_update_nova_model E D obj w1
               | None \<Rightarrow> (Raise (PyExc TypeError ''argument of type NoneType is not iterable''), w1)"
  let ?fin = "\<lambda>w2. case lr_cache (fst w2) (lazy_get_key E lr) of
                 Some a \<Rightarrow> (Ok (PObj a), w2)
               | None \<Rightarrow> (Raise (PyExc KeyError (quoted (lazy_get_key E lr))), w2)"
  have upd_keeps: "lr2 = lr1" if "?upd (lr1, s2) = (r2, (lr2, s3))" for lr1 s2 r2 lr2 s3
    using that lazy_update_keeps_ref [of E D _ lr1 s2 r2 lr2 s3]
    by (cases data) auto
  have fin_keeps: "w3 = w2" if "?fin w2 = (r3, w3)" for w2 r3 w3
    using that by (cases "lr_cache (fst w2) (lazy_get_key E lr)") auto
  from assms f have run:
    "and_then (lazy_spawn_empty_model E data (lr, s1))
       (\<lambda>_ w1. and_then (?upd w1) (\<lambda>_ w2. ?fin w2)) = (r, (lr', s'))"
    by (simp add: lazy_load_def)
  show ?thesis
  proof (rule and_then_cases [OF run], goal_cases)
    case (2 e)
    then show ?thesis using lazy_spawn_keeps_ref by blast
  next
    case 3
    then show ?thesis using lazy_spawn_keeps_ref by blast
  next
    case ok: (1 x w1)
    obtain lr1 s2 where w1: "w1 = (lr1, s2)" by (cases w1)
    have k1: "lr_base lr1 = lr_base lr \<and> lr_id lr1 = lr_id lr"
      using ok(1) w1 lazy_spawn_keeps_ref by blast
    show ?thesis
    proof (rule and_then_cases [OF ok(2)], goal_cases)
      case (2 e)
      then have "lr' = lr1" using w1 upd_keeps by blast
      with k1 show ?thesis by simp
    next
      case 3
      then have "lr' = lr1" using w1 upd_keeps by blast
      with k1 show ?thesis by simp
    next
      case ok: (1 y w2)
      obtain lr2 s3 where w2: "w2 = (lr2, s3)" by (cases w2)
      have "lr2 = lr1" using ok(1) w1 w2 upd_keeps by blast
      moreover have "(lr', s') = w2" using ok(2) fin_keeps by blast
      ultimately show ?thesis using k1 w2 by simp
    qed
  qed
qed


lemma lazy_key_cong:
  "lr_base lr' = lr_base lr \<Longrightarrow> lr_id lr' = lr_id lr \<Longrightarrow> lazy_get_key E lr' = lazy_get_key E lr"
  by (simp add: lazy_get_key_def resolve_model_name_def)

text \<open>
  C7. A lazy reference to a record that carries a strategy tag: the resolution raises
  \<open>NameError\<close> in \<open>LazyReference.update_nova_model\<close>, after the placeholder has been
  memoized and before any field is populated. The same branch of
  \<open>ObjectDesimplifier.update_nova_model\<close> fetches the record: the reference descriptor
  of node 7 has no \<open>hostname\<close>, the object gets the one of the stored record.
\<close>

theorem lazy_indirection_raises_name_error:
  "fst (get_complex_ref demo_env (desimplify demo_env 3) (lazy_init ''instances'' (PInt 1), empty_state))
     = Raise (PyExc NameError ''global name db_client is not defined'')
   \<and> attrs (heap (snd (desimplify demo_env 3
        (PDict 1 [(''simplify_strategy'', PStr ''novabase''), (''tablename'', PStr ''nodes''),
                  (''id'', PInt 7), (''novabase_classname'', PStr ''Node'')]) empty_state)) ! 0) ''hostname''
     = Some (PStr ''n7'')"
  by (simp add: numeral_3_eq_3 engine_defs lazy_defs demo_defs str_nat.simps sublist_code)

text \<open>
  C9. \<open>__str__\<close> and \<open>__repr__\<close> return \<open>Lazy(<class name>_<id>)\<close>, computed from the
  table name and the id of the reference; the reference, its memo included, and the
  session state, its fetch log included, are returned unchanged.
\<close>

theorem rendering_does_not_resolve:
  "lazy_str E (lr, s) =
     (Ok (''Lazy('' @ py_str E (classname_of_table E (lr_base lr)) @ ''_'' @ py_str E (lr_id lr) @ '')''),
      (lr, s))
   \<and> lazy_repr E (lr, s) =
     (Ok (''Lazy('' @ py_str E (classname_of_table E (lr_base lr)) @ ''_'' @ py_str E (lr_id lr) @ '')''),
      (lr, s))"
  by (simp add: lazy_str_def lazy_repr_def lazy_get_key_def resolve_model_name_def)

text \<open>
  C8, as the code has it. Once a resolution has returned an object, every later
  resolution of the reference returns the same object and leaves the reference and the
  session state, its fetch log included, as they are, whatever the state and the nested
  \<open>desimplify\<close> are.
\<close>

theorem resolved_reference_is_memoized:
  assumes "get_complex_ref E D (lr, s) = (Ok r, (lr', s'))"
  shows "get_complex_ref E D' (lr', s'') = (Ok r, (lr', s''))"
proof -
  let ?k = "lazy_get_key E lr"
  from assms have "and_then
      (if lr_cache lr ?k = None then lazy_load E D (lr, s) else (Ok PNone, (lr, s)))
      (\<lambda>_ w1. case lr_cache (fst w1) ?k of Some a \<Rightarrow> (Ok (PObj a), w1)
             | None \<Rightarrow> (Raise (PyExc KeyError (quoted ?k)), w1)) = (Ok r, (lr', s'))"
    unfolding get_complex_ref_def fst_conv .
  then obtain x w1 where
    m: "(if lr_cache lr ?k = None then lazy_load E D (lr, s) else (Ok PNone, (lr, s))) = (Ok x, w1)"
    and f: "(case lr_cache (fst w1) ?k of Some a \<Rightarrow> (Ok (PObj a), w1)
             | None \<Rightarrow> (Raise (PyExc KeyError (quoted ?k)), w1)) = (Ok r, (lr', s'))"
    by (rule and_then_Ok_elim)
  from f obtain a where a: "lr_cache lr' ?k = Some a" "r = PObj a" "w1 = (lr', s')"
    by (cases "lr_cache (fst w1) ?k") auto
  have "lr_base lr' = lr_base lr \<and> lr_id lr' = lr_id lr"
  proof (cases "lr_cache lr ?k = None")
    case True
    with m have "lazy_load E D (lr, s) = (Ok x, w1)" by simp
    then have "lazy_load E D (lr, s) = (Ok x, (lr', s'))" unfolding a(3) .
    then show ?thesis by (rule lazy_load_keeps_ref)
  next
    case False
    with m have "w1 = (lr, s)" by simp
    with a(3) have "lr' = lr" by simp
    then show ?thesis by simp
  qed
  then have "lazy_get_key E lr' = ?k" by (intro lazy_key_cong) simp_all
  with a show ?thesis by (simp add: get_complex_ref_def)
qed

theorem resolved_reference_is_memoized_witness:
  "\<exists>lr1 s1.
     get_complex_ref demo_env (desimplify demo_env 2) (lazy_init ''nodes'' (PInt 7), empty_state)
       = (Ok (PObj 0), (lr1, s1))
     \<and> fetch_log s1 = [(''nodes'', ''7'')]
     \<and> get_complex_ref demo_env (desimplify demo_env 2) (lr1, s1) = (Ok (PObj 0), (lr1, s1))"
proof -
  obtain r lr1 s1 where
    run: "get_complex_ref demo_env (desimplify demo_env 2) (lazy_init ''nodes'' (PInt 7), empty_state)
            = (r, (lr1, s1))"
    by (metis prod.exhaust)
  have "fst (get_complex_ref demo_env (desimplify demo_env 2) (lazy_init ''nodes'' (PInt 7), empty_state))
          = Ok (PObj 0)"
    by (simp add: numeral_2_eq_2 engine_defs lazy_defs demo_defs str_nat.simps sublist_code)
  then have r: "r = Ok (PObj 0)"
    unfolding run by simp
  have "fetch_log (snd (snd (get_complex_ref demo_env (desimplify demo_env 2)
          (lazy_init ''nodes'' (PInt 7), empty_state)))) = [(''nodes'', ''7'')]"
    by (simp add: numeral_2_eq_2 engine_defs lazy_defs demo_defs str_nat.simps sublist_code)
  then have l: "fetch_log s1 = [(''nodes'', ''7'')]"
    unfolding run by simp
  have again: "get_complex_ref demo_env (desimplify demo_env 2) (lr1, s1) = (Ok (PObj 0), (lr1, s1))"
    using resolved_reference_is_memoized [OF run [unfolded r]] .
  show ?thesis
    by (intro exI [of _ lr1] exI [of _ s1] conjI) (fact run [unfolded r] l again)+
qed

text \<open>
  A reference to a record that the store does not hold: the resolution raises before
  anything is memoized, and the second resolution sends the request again.
\<close>

theorem failed_resolution_fetches_again_counterexample:
  "fetch_log (snd (snd (get_complex_ref demo_env (desimplify demo_env 2)
      (snd (get_complex_ref demo_env (desimplify demo_env 2) (lazy_init ''volumes'' (PInt 3), empty_state))))))
   = [(''volumes'', ''3''), (''volumes'', ''3'')]"
  by (simp add: engine_defs lazy_defs demo_defs str_nat.simps)


section \<open>Every call only extends the session state\<close>

lemma evolves_ex_refl: "evolves_ex X s s"
  by (simp add: evolves_ex_def)

lemma evolves_ex_trans:
  assumes "evolves_ex X s s1" and "evolves_ex Y s1 s2"
  shows "evolves_ex (X \<union> Y) s s2"
proof -
  have c: "cache s \<subseteq>\<^sub>m cache s2"
    using assms by (auto simp: evolves_ex_def intro: map_le_trans)
  have l: "length (heap s) \<le> length (heap s2)"
    using assms by (auto simp: evolves_ex_def)
  have o: "klass (heap s2 ! a) = klass (heap s ! a) \<and>
        fk_updates (heap s ! a) \<le> fk_updates (heap s2 ! a) \<and>
        (a \<notin> X \<union> Y \<longrightarrow> attrs (heap s2 ! a) = attrs (heap s ! a))"
    if "a < length (heap s)" for a
  proof -
    from that assms(1) have a1: "a < length (heap s1)"
      by (auto simp: evolves_ex_def)
    from that assms(1) have s1: "klass (heap s1 ! a) = klass (heap s ! a)"
      "fk_updates (heap s ! a) \<le> fk_updates (heap s1 ! a)"
      "a \<notin> X \<Longrightarrow> attrs (heap s1 ! a) = attrs (heap s ! a)"
      by (auto simp: evolves_ex_def)
    from a1 assms(2) have s2: "klass (heap s2 ! a) = klass (heap s1 ! a)"
      "fk_updates (heap s1 ! a) \<le> fk_updates (heap s2 ! a)"
      "a \<notin> Y \<Longrightarrow> attrs (heap s2 ! a) = attrs (heap s1 ! a)"
      by (auto simp: evolves_ex_def)
    from s1 s2 show ?thesis by auto
  qed
  from c l o show ?thesis
    unfolding evolves_ex_def by blast
qed

lemma evolves_ex_trans_same:
  "evolves_ex X s s1 \<Longrightarrow> evolves_ex X s1 s2 \<Longrightarrow> evolves_ex X s s2"
  using evolves_ex_trans [of X s s1 X s2] by simp

lemma evolves_ex_mono: "evolves_ex X s s' \<Longrightarrow> X \<subseteq> Y \<Longrightarrow> evolves_ex Y s s'"
  unfolding evolves_ex_def by blast

lemma evolves_ex_fresh:
  assumes "evolves_ex X s s'" and "\<forall>a\<in>X. length (heap s) \<le> a"
  shows "evolves_ex {} s s'"
  using assms unfolding evolves_ex_def by (metis empty_iff leD)

lemma and_then_evolves:
  assumes run: "and_then m f = (r, t)"
    and first: "evolves_ex X s (snd m)"
    and rest: "\<And>x s1. m = (Ok x, s1) \<Longrightarrow> f x s1 = (r, t) \<Longrightarrow> evolves_ex X s1 t"
  shows "evolves_ex X s t"
proof (rule and_then_cases [OF run], goal_cases)
  case (1 x s1)
  with first rest show ?case
    using evolves_ex_trans_same [of X s s1 t] by simp
next
  case (2 e)
  with first show ?case by simp
next
  case 3
  with first show ?case by simp
qed

lemma nth_list_update_cases:
  "aa < length xs \<Longrightarrow> xs[a := y] ! aa = (if aa = a then y else xs ! aa)"
  by (cases "aa = a") simp_all

lemma setattr_evolves:
  assumes "setattr E cm key v s = (r, s')"
  shows "evolves_ex (set_option cm) s s'"
proof (cases cm)
  case None
  with assms show ?thesis by (simp add: setattr_def evolves_ex_refl)
next
  case (Some a)
  show ?thesis
  proof (cases "setter E (klass (heap s ! a)) key v")
    case (Some e)
    with assms \<open>cm = Some a\<close> show ?thesis by (simp add: setattr_def evolves_ex_refl)
  next
    case None
    with assms \<open>cm = Some a\<close> have
      "s' = s\<lparr>heap := (heap s)[a := (heap s ! a)\<lparr>attrs := (attrs (heap s ! a))(key \<mapsto> v)\<rparr>]\<rparr>"
      by (simp add: setattr_def)
    then show ?thesis
      using \<open>cm = Some a\<close> by (auto simp: evolves_ex_def nth_list_update_cases)
  qed
qed

lemma update_foreign_keys_evolves: "evolves_ex X s (update_foreign_keys a s)"
  by (auto simp: evolves_ex_def update_foreign_keys_def nth_list_update_cases)

lemma fixup_evolves: "fixup v s = (r, s') \<Longrightarrow> evolves_ex X s s'"
  by (cases v) (auto simp: fixup_def evolves_ex_refl update_foreign_keys_evolves)

lemma preservesD: "preserves D \<Longrightarrow> D v s = (r, s') \<Longrightarrow> evolves_ex X s s'"
  unfolding preserves_def using evolves_ex_mono by blast

lemma try_assign_evolves:
  assumes "preserves D" and "try_assign E D cm key raw v s = (r, s')"
  shows "evolves_ex (set_option cm) s s'"
proof (cases "v \<noteq> PNone")
  case True
  with assms(2) have run: "and_then (D raw s) (\<lambda>v s1. setattr E cm key v s1) = (r, s')"
    by (simp add: try_assign_def)
  show ?thesis
  proof (rule and_then_evolves [OF run])
    show "evolves_ex (set_option cm) s (snd (D raw s))"
      using preservesD [OF assms(1), of raw s] by (cases "D raw s") simp
  qed (rule setattr_evolves)
next
  case False
  with assms(2) show ?thesis by (simp add: try_assign_def setattr_evolves)
qed

lemma assign_field_evolves:
  assumes "preserves D" and "assign_field E D cm key raw s = (r, s')"
  shows "evolves_ex (set_option cm) s s'"
proof (rule and_then_evolves [OF assms(2) [unfolded assign_field_def]])
  show "evolves_ex (set_option cm) s (snd (D raw s))"
    using preservesD [OF assms(1), of raw s] by (cases "D raw s") simp
next
  fix v s1
  assume h: "(case try_assign E D cm key raw v s1 of
         (Ok u, s2) \<Rightarrow> (Ok u, s2)
       | (OutOfFuel, s2) \<Rightarrow> (OutOfFuel, s2)
       | (Raise e, s2) \<Rightarrow>
           (if sublist ''None is not list-like'' (exc_message e)
            then setattr E cm key (PList []) s2
            else (Ok (), s2))) = (r, s')"
  obtain r2 s2 where t: "try_assign E D cm key raw v s1 = (r2, s2)"
    by (cases "try_assign E D cm key raw v s1")
  have e1: "evolves_ex (set_option cm) s1 s2"
    using try_assign_evolves [OF assms(1) t] .
  show "evolves_ex (set_option cm) s1 s'"
  proof (cases r2)
    case (Ok u)
    with h t e1 show ?thesis by simp
  next
    case OutOfFuel
    with h t e1 show ?thesis by simp
  next
    case (Raise e)
    show ?thesis
    proof (cases "sublist ''None is not list-like'' (exc_message e)")
      case True
      with h t Raise have "setattr E cm key (PList []) s2 = (r, s')" by simp
      then have "evolves_ex (set_option cm) s2 s'" by (rule setattr_evolves)
      with e1 show ?thesis by (rule evolves_ex_trans_same)
    next
      case False
      with h t Raise e1 show ?thesis by simp
    qed
  qed
qed

lemma populate_evolves:
  assumes "preserves D"
  shows "populate E D cm items s = (r, s') \<Longrightarrow> evolves_ex (set_option cm) s s'"
proof (induction items arbitrary: s)
  case Nil
  then show ?case by (simp add: evolves_ex_refl)
next
  case (Cons item items)
  obtain key raw where item: "item = (key, raw)" by (cases item)
  obtain r1 s1 where a: "assign_field E D cm key raw s = (r1, s1)"
    by (cases "assign_field E D cm key raw s")
  have e1: "evolves_ex (set_option cm) s s1"
    using assign_field_evolves [OF assms a] .
  show ?case
  proof (cases r1)
    case (Ok u)
    with Cons.prems item a have "populate E D cm items s1 = (r, s')" by simp
    then have "evolves_ex (set_option cm) s1 s'" by (rule Cons.IH)
    with e1 show ?thesis by (rule evolves_ex_trans_same)
  next
    case (Raise e)
    with Cons.prems item a e1 show ?thesis by simp
  next
    case OutOfFuel
    with Cons.prems item a e1 show ?thesis by simp
  qed
qed

lemma copy_scoping_field_evolves:
  "copy_scoping_field E cm kvs name s = (r, s') \<Longrightarrow> evolves_ex (set_option cm) s s'"
  by (auto simp: copy_scoping_field_def evolves_ex_refl setattr_evolves
      split: if_splits outcome.splits)

lemma fill_model_evolves:
  assumes "preserves D" and "fill_model E D cm kvs s = (r, s')"
  shows "evolves_ex (set_option cm) s s'"
proof (rule and_then_evolves [OF assms(2) [unfolded fill_model_def]])
  show "evolves_ex (set_option cm) s (snd (populate E D cm kvs s))"
    using populate_evolves [OF assms(1), of E cm kvs s] by (cases "populate E D cm kvs s") simp
next
  fix u s1
  assume h1: "and_then (copy_scoping_field E cm kvs ''user_id'' s1) (\<lambda>_ s2.
     and_then (copy_scoping_field E cm kvs ''project_id'' s2) (\<lambda>_ s3.
       case cm of
         None \<Rightarrow> (Raise (PyExc AttributeError
                    ''NoneType object has no attribute update_foreign_keys''), s3)
       | Some a \<Rightarrow> (Ok a, update_foreign_keys a s3))) = (r, s')"
  show "evolves_ex (set_option cm) s1 s'"
  proof (rule and_then_evolves [OF h1])
    show "evolves_ex (set_option cm) s1 (snd (copy_scoping_field E cm kvs ''user_id'' s1))"
      using copy_scoping_field_evolves [of E cm kvs "''user_id''" s1]
      by (cases "copy_scoping_field E cm kvs ''user_id'' s1") simp
  next
    fix u2 s2
    assume h2: "and_then (copy_scoping_field E cm kvs ''project_id'' s2) (\<lambda>_ s3.
       case cm of
         None \<Rightarrow> (Raise (PyExc AttributeError
                    ''NoneType object has no attribute update_foreign_keys''), s3)
       | Some a \<Rightarrow> (Ok a, update_foreign_keys a s3)) = (r, s')"
    show "evolves_ex (set_option cm) s2 s'"
    proof (rule and_then_evolves [OF h2])
      show "evolves_ex (set_option cm) s2 (snd (copy_scoping_field E cm kvs ''project_id'' s2))"
        using copy_scoping_field_evolves [of E cm kvs "''project_id''" s2]
        by (cases "copy_scoping_field E cm kvs ''project_id'' s2") simp
    next
      fix u3 s3
      assume "(case cm of
         None \<Rightarrow> (Raise (PyExc AttributeError
                    ''NoneType object has no attribute update_foreign_keys''), s3)
       | Some a \<Rightarrow> (Ok a, update_foreign_keys a s3)) = (r, s')"
      then show "evolves_ex (set_option cm) s3 s'"
        by (cases cm) (auto simp: evolves_ex_refl update_foreign_keys_evolves)
    qed
  qed
qed

lemma fetch_record_evolves: "fetch_record E obj s = (r, s') \<Longrightarrow> evolves_ex X s s'"
  by (auto simp: fetch_record_def fetch_def evolves_ex_def
      split: outcome.splits pyval.splits option.splits)

lemma spawn_fresh:
  assumes "spawn_empty_model E obj s = (Ok c, s1)"
    and "get_key E obj = Ok key" and "cache s key = None"
  shows "(c = None \<and> s1 = s) \<or>
         (\<exists>cls. c = Some (length (heap s)) \<and>
            s1 = s\<lparr>heap := heap s @ [new_object cls],
                   cache := (cache s)(key \<mapsto> Some (length (heap s)))\<rparr>)"
proof (cases "class_name_field (snd obj)")
  case None
  with assms(1) show ?thesis by (simp add: spawn_empty_model_def)
next
  case (Some name)
  show ?thesis
  proof (cases "name = PNone")
    case True
    with assms(1) Some show ?thesis by (simp add: spawn_empty_model_def)
  next
    case False
    show ?thesis
    proof (cases "get_model_class_from_name E name")
      case None
      with assms(1) Some False show ?thesis
        by (cases name) (simp_all add: spawn_empty_model_def)
    next
      case (Some cls)
      with assms \<open>class_name_field (snd obj) = Some name\<close> False show ?thesis
        by (cases name) (auto simp: spawn_empty_model_def Let_def)
    qed
  qed
qed

lemma spawn_evolves:
  assumes "spawn_empty_model E obj s = (r, s1)"
  shows "evolves_ex X s s1"
proof (cases "class_name_field (snd obj)")
  case None
  with assms show ?thesis by (simp add: spawn_empty_model_def evolves_ex_refl)
next
  case (Some name)
  show ?thesis
  proof (cases "name = PNone")
    case True
    with assms Some show ?thesis by (simp add: spawn_empty_model_def evolves_ex_refl)
  next
    case False
    show ?thesis
    proof (cases "get_model_class_from_name E name")
      case None
      with assms Some False show ?thesis
        by (cases name) (simp_all add: spawn_empty_model_def evolves_ex_refl)
    next
      case (Some cls)
      let ?s1 = "s\<lparr>heap := heap s @ [new_object cls]\<rparr>"
      have grow: "evolves_ex X s ?s1"
        by (simp add: evolves_ex_def nth_append)
      have ins: "evolves_ex X ?s1 (?s1\<lparr>cache := (cache ?s1)(key \<mapsto> Some (length (heap s)))\<rparr>)"
        if "cache ?s1 key = None" for key
        using that by (auto simp: evolves_ex_def map_le_def)
      from assms \<open>class_name_field (snd obj) = Some name\<close> False Some
      have "s1 = ?s1 \<or> (\<exists>key. cache ?s1 key = None \<and>
              s1 = ?s1\<lparr>cache := (cache ?s1)(key \<mapsto> Some (length (heap s)))\<rparr>)"
        by (cases name) (auto simp: spawn_empty_model_def Let_def split: outcome.splits if_splits option.splits)
      then show ?thesis
      proof
        assume "s1 = ?s1"
        with grow show ?thesis by simp
      next
        assume "\<exists>key. cache ?s1 key = None \<and>
              s1 = ?s1\<lparr>cache := (cache ?s1)(key \<mapsto> Some (length (heap s)))\<rparr>"
        then obtain key where k: "cache ?s1 key = None"
          and s1: "s1 = ?s1\<lparr>cache := (cache ?s1)(key \<mapsto> Some (length (heap s)))\<rparr>"
          by blast
        from grow ins [OF k] show ?thesis
          unfolding s1 by (rule evolves_ex_trans_same)
      qed
    qed
  qed
qed

lemma update_nova_model_evolves:
  assumes "preserves D" and "update_nova_model E D obj s = (r, s')"
  shows "evolves_ex (current E obj s) s s'"
proof (cases "get_key E obj")
  case (Ok key)
  show ?thesis
  proof (cases "cache s key")
    case None
    with assms(2) Ok show ?thesis by (simp add: update_nova_model_def evolves_ex_refl)
  next
    case (Some cm)
    from assms(2) Ok Some have run:
      "and_then
         (if has_key (snd obj) ''simplify_strategy'' then fetch_record E obj s else (Ok obj, s))
         (\<lambda>obj1 s1. fill_model E D cm (snd obj1) s1) = (r, s')"
      by (simp add: update_nova_model_def)
    have "evolves_ex (set_option cm) s s'"
    proof (rule and_then_evolves [OF run])
      show "evolves_ex (set_option cm) s
        (snd (if has_key (snd obj) ''simplify_strategy'' then fetch_record E obj s else (Ok obj, s)))"
        using fetch_record_evolves [of E obj s]
        by (cases "fetch_record E obj s") (simp add: evolves_ex_refl)
    next
      fix obj1 s1
      assume "fill_model E D cm (snd obj1) s1 = (r, s')"
      then show "evolves_ex (set_option cm) s1 s'"
        by (rule fill_model_evolves [OF assms(1)])
    qed
    moreover have "set_option cm \<subseteq> current E obj s"
      using Ok Some by (cases cm) (auto simp: current_def)
    ultimately show ?thesis by (rule evolves_ex_mono)
  qed
next
  case (Raise e)
  with assms(2) show ?thesis by (simp add: update_nova_model_def evolves_ex_refl)
next
  case OutOfFuel
  with assms(2) show ?thesis by (simp add: update_nova_model_def evolves_ex_refl)
qed

text \<open>
  The state in which \<open>novabase_desimplify\<close> calls \<open>update_nova_model\<close>, for a key that
  the cache did not hold: the new instance is the last of the heap.
\<close>

lemma spawned_state:
  assumes "spawn_empty_model E obj s = (Ok c, s1)"
    and "get_key E obj = Ok key" and "cache s key = None"
  shows "evolves_ex {} s (s1\<lparr>cache := (cache s1)(key \<mapsto> c)\<rparr>)"
    and "current E obj (s1\<lparr>cache := (cache s1)(key \<mapsto> c)\<rparr>) \<subseteq> {length (heap s)}"
proof -
  from spawn_fresh [OF assms] show "evolves_ex {} s (s1\<lparr>cache := (cache s1)(key \<mapsto> c)\<rparr>)"
    using assms(3) by (auto simp: evolves_ex_def map_le_def nth_append)
  from spawn_fresh [OF assms]
  show "current E obj (s1\<lparr>cache := (cache s1)(key \<mapsto> c)\<rparr>) \<subseteq> {length (heap s)}"
    using assms(2) by (auto simp: current_def)
qed

lemma novabase_desimplify_evolves:
  assumes "preserves D" and "novabase_desimplify E D obj s = (r, s')"
  shows "evolves_ex {} s s'"
proof (cases "get_key E obj")
  case (Ok key)
  let ?lookup = "\<lambda>(u::unit) s3. case cache s3 key of
                       Some r \<Rightarrow> (Ok (ref_val r), s3)
                     | None \<Rightarrow> (Raise (PyExc KeyError (quoted key)), s3)"
  have lookup: "s' = s3" if "?lookup u s3 = (r, s')" for u s3
    using that by (cases "cache s3 key") auto
  show ?thesis
  proof (cases "cache s key = None")
    case False
    with assms(2) Ok have "?lookup () s = (r, s')"
      by (simp add: novabase_desimplify_def)
    then have "s' = s" by (rule lookup)
    then show ?thesis by (simp add: evolves_ex_refl)
  next
    case True
    with assms(2) Ok have run:
      "and_then
         (and_then (spawn_empty_model E obj s) (\<lambda>r s1.
            and_then (update_nova_model E D obj (s1\<lparr>cache := (cache s1)(key \<mapsto> r)\<rparr>))
              (\<lambda>_ s2. (Ok (), s2))))
         ?lookup = (r, s')"
      by (simp add: novabase_desimplify_def)
    let ?inner = "and_then (spawn_empty_model E obj s) (\<lambda>r s1.
            and_then (update_nova_model E D obj (s1\<lparr>cache := (cache s1)(key \<mapsto> r)\<rparr>))
              (\<lambda>_ s2. (Ok (), s2)))"
    obtain r0 s0 where inner: "?inner = (r0, s0)"
      by (cases ?inner)
    from run have run': "and_then (r0, s0) ?lookup = (r, s')"
      unfolding inner .
    have "s' = s0"
    proof (cases r0)
      case (Ok u)
      with run' have "?lookup u s0 = (r, s')" by simp
      then show ?thesis by (rule lookup)
    next
      case (Raise e)
      with run' show ?thesis by simp
    next
      case OutOfFuel
      with run' show ?thesis by simp
    qed
    moreover have "evolves_ex {} s s0"
    proof (rule and_then_cases [OF inner], goal_cases)
      case (1 c s1)
      let ?s1 = "s1\<lparr>cache := (cache s1)(key \<mapsto> c)\<rparr>"
      obtain r2 s2 where upd: "update_nova_model E D obj ?s1 = (r2, s2)"
        by (cases "update_nova_model E D obj ?s1")
      have "s0 = s2"
        using 1(2) upd by (cases r2) auto
      have "evolves_ex (current E obj ?s1) ?s1 s2"
        using update_nova_model_evolves [OF assms(1) upd] .
      then have "evolves_ex {length (heap s)} ?s1 s2"
        using spawned_state(2) [OF 1(1) Ok True] by (rule evolves_ex_mono)
      moreover have "evolves_ex {length (heap s)} s ?s1"
        using spawned_state(1) [OF 1(1) Ok True] by (rule evolves_ex_mono) simp
      ultimately have "evolves_ex {length (heap s)} s s2"
        using evolves_ex_trans_same by blast
      then have "evolves_ex {} s s2"
        by (rule evolves_ex_fresh) simp
      with \<open>s0 = s2\<close> show ?case by simp
    next
      case (2 e)
      then show ?case using spawn_evolves by blast
    next
      case 3
      then show ?case using spawn_evolves by blast
    qed
    ultimately show ?thesis by simp
  qed
next
  case (Raise e)
  with assms(2) show ?thesis by (simp add: novabase_desimplify_def evolves_ex_refl)
next
  case OutOfFuel
  with assms(2) show ?thesis by (simp add: novabase_desimplify_def evolves_ex_refl)
qed

lemma desimplify_items_evolves:
  assumes "preserves D"
  shows "desimplify_items D items s = (r, s') \<Longrightarrow> evolves_ex {} s s'"
proof (induction items arbitrary: s r s')
  case Nil
  then show ?case by (simp add: evolves_ex_refl)
next
  case (Cons item items)
  obtain r1 s1 where d: "D item s = (r1, s1)" by (cases "D item s")
  have e1: "evolves_ex {} s s1" using preservesD [OF assms d] .
  show ?case
  proof (cases r1)
    case (Ok x)
    obtain r2 s2 where rest: "desimplify_items D items s1 = (r2, s2)"
      by (cases "desimplify_items D items s1")
    have "evolves_ex {} s1 s2" using Cons.IH [OF rest] .
    moreover have "s' = s2"
      using Cons.prems d Ok rest by (cases r2) auto
    ultimately show ?thesis using e1 evolves_ex_trans_same by blast
  next
    case (Raise e)
    with Cons.prems d e1 show ?thesis by simp
  next
    case OutOfFuel
    with Cons.prems d e1 show ?thesis by simp
  qed
qed

lemma dispatch_evolves:
  assumes "preserves D" and "dispatch E D obj s = (r, s')"
  shows "evolves_ex {} s s'"
proof (cases obj)
  case (PList items)
  obtain r1 s1 where it: "desimplify_items D items s = (r1, s1)"
    by (cases "desimplify_items D items s")
  have "evolves_ex {} s s1" using desimplify_items_evolves [OF assms(1) it] .
  moreover have "s' = s1"
    using assms(2) PList it by (cases r1) (auto simp: dispatch_def)
  ultimately show ?thesis by simp
next
  case (PDict i kvs)
  from assms(2) PDict have
    "novabase_desimplify E D (i, kvs) s = (r, s') \<or> s' = s"
    by (auto simp: dispatch_def split: if_splits)
  then show ?thesis
    using novabase_desimplify_evolves [OF assms(1)] evolves_ex_refl by blast
qed (use assms(2) in \<open>auto simp: dispatch_def evolves_ex_refl\<close>)

lemma desimplify_body_evolves:
  assumes "preserves D" and "desimplify_body E D obj s = (r, s')"
  shows "evolves_ex {} s s'"
proof (rule and_then_evolves [OF assms(2) [unfolded desimplify_body_def]])
  show "evolves_ex {} s (snd (dispatch E D obj s))"
    using dispatch_evolves [OF assms(1), of E obj s] by (cases "dispatch E D obj s") simp
qed (rule fixup_evolves)

lemma desimplify_preserves: "preserves (desimplify E n)"
proof (induction n)
  case 0
  show ?case by (simp add: preserves_def evolves_ex_refl)
next
  case (Suc n)
  show ?case
    unfolding preserves_def using desimplify_body_evolves [OF Suc] by simp
qed

lemma desimplify_evolves: "desimplify E n v s = (r, s') \<Longrightarrow> evolves_ex {} s s'"
  using desimplify_preserves preservesD by blast

section \<open>The identity cache\<close>


lemma evolves_cache: "evolves_ex X s s' \<Longrightarrow> cache s key = Some c \<Longrightarrow> cache s' key = Some c"
  by (auto simp: evolves_ex_def map_le_def dom_def)

lemma fixup_result: "fixup v s = (r, s') \<Longrightarrow> r = Ok v \<and> cache s' = cache s"
  by (cases v) (auto simp: fixup_def update_foreign_keys_def)

lemma dispatch_tagged:
  "tagged_object kvs \<Longrightarrow> dispatch E D (PDict i kvs) s = novabase_desimplify E D (i, kvs) s"
  by (auto simp: tagged_object_def dispatch_def has_key_def split: if_splits)


lemma novabase_cache_hit:
  "get_key E obj = Ok key \<Longrightarrow> cache s key = Some c \<Longrightarrow>
     novabase_desimplify E D obj s = (Ok (ref_val c), s)"
  by (simp add: novabase_desimplify_def)

lemma desimplify_tagged_Suc:
  assumes "desimplify E n (PDict i kvs) s = (Ok r, s')" and "tagged_object kvs"
  obtains m s1 where "n = Suc m"
    and "novabase_desimplify E (desimplify E m) (i, kvs) s = (Ok r, s1)"
    and "fixup r s1 = (Ok r, s')"
proof (cases n)
  case 0
  with assms(1) show ?thesis by simp
next
  case (Suc m)
  with assms have run: "and_then (novabase_desimplify E (desimplify E m) (i, kvs) s) fixup = (Ok r, s')"
    by (simp add: desimplify_body_def dispatch_tagged)
  then obtain x s1 where nb: "novabase_desimplify E (desimplify E m) (i, kvs) s = (Ok x, s1)"
    and fx: "fixup x s1 = (Ok r, s')"
    by (rule and_then_Ok_elim)
  from fixup_result [OF fx] have "x = r" by simp
  with nb fx Suc show ?thesis by (auto intro: that)
qed

section \<open>The relationship-fixup hook\<close>

lemma update_foreign_keys_simps:
  "length (heap (update_foreign_keys a s)) = length (heap s)"
  "cache (update_foreign_keys a s) = cache s"
  "a < length (heap s) \<Longrightarrow>
     fk_updates (heap (update_foreign_keys a s) ! a) = Suc (fk_updates (heap s ! a))"
  by (simp_all add: update_foreign_keys_def)

lemma fill_model_Ok:
  assumes "preserves D" and "fill_model E D cm kvs s = (Ok a, s')"
  shows "cm = Some a \<and> (\<exists>s3. evolves_ex {a} s s3 \<and> s' = update_foreign_keys a s3)"
proof -
  from assms(2) [unfolded fill_model_def] obtain u1 s1 where
    p: "populate E D cm kvs s = (Ok u1, s1)"
    and r1: "and_then (copy_scoping_field E cm kvs ''user_id'' s1) (\<lambda>_ s2.
     and_then (copy_scoping_field E cm kvs ''project_id'' s2) (\<lambda>_ s3.
       case cm of
         None \<Rightarrow> (Raise (PyExc AttributeError
                    ''NoneType object has no attribute update_foreign_keys''), s3)
       | Some a \<Rightarrow> (Ok a, update_foreign_keys a s3))) = (Ok a, s')"
    by (rule and_then_Ok_elim)
  from r1 obtain u2 s2 where
    c1: "copy_scoping_field E cm kvs ''user_id'' s1 = (Ok u2, s2)"
    and r2: "and_then (copy_scoping_field E cm kvs ''project_id'' s2) (\<lambda>_ s3.
       case cm of
         None \<Rightarrow> (Raise (PyExc AttributeError
                    ''NoneType object has no attribute update_foreign_keys''), s3)
       | Some a \<Rightarrow> (Ok a, update_foreign_keys a s3)) = (Ok a, s')"
    by (rule and_then_Ok_elim)
  from r2 obtain u3 s3 where
    c2: "copy_scoping_field E cm kvs ''project_id'' s2 = (Ok u3, s3)"
    and fin: "(case cm of
         None \<Rightarrow> (Raise (PyExc AttributeError
                    ''NoneType object has no attribute update_foreign_keys''), s3)
       | Some a \<Rightarrow> (Ok a, update_foreign_keys a s3)) = (Ok a, s')"
    by (rule and_then_Ok_elim)
  from fin have cm: "cm = Some a" and s': "s' = update_foreign_keys a s3"
    by (cases cm; simp)+
  have "evolves_ex (set_option cm) s s1"
    using populate_evolves [OF assms(1) p] .
  moreover have "evolves_ex (set_option cm) s1 s2"
    using copy_scoping_field_evolves [OF c1] .
  moreover have "evolves_ex (set_option cm) s2 s3"
    using copy_scoping_field_evolves [OF c2] .
  ultimately have "evolves_ex (set_option cm) s s3"
    using evolves_ex_trans_same by blast
  with cm s' show ?thesis by auto
qed

lemma update_nova_model_Ok:
  assumes "preserves D" and "update_nova_model E D obj s = (Ok a, s')"
    and "get_key E obj = Ok key"
  shows "cache s key = Some (Some a) \<and> (\<exists>s3. evolves_ex {a} s s3 \<and> s' = update_foreign_keys a s3)"
proof (cases "cache s key")
  case None
  with assms(2,3) show ?thesis by (simp add: update_nova_model_def)
next
  case (Some cm)
  from assms(2,3) Some have
    "and_then
       (if has_key (snd obj) ''simplify_strategy'' then fetch_record E obj s else (Ok obj, s))
       (\<lambda>obj1 s1. fill_model E D cm (snd obj1) s1) = (Ok a, s')"
    by (simp add: update_nova_model_def)
  then obtain obj1 s1 where
    f: "(if has_key (snd obj) ''simplify_strategy'' then fetch_record E obj s else (Ok obj, s))
          = (Ok obj1, s1)"
    and fm: "fill_model E D cm (snd obj1) s1 = (Ok a, s')"
    by (rule and_then_Ok_elim)
  have e0: "evolves_ex {a} s s1"
    using f fetch_record_evolves [of E obj s "Ok obj1" s1 "{a}"]
    by (auto simp: evolves_ex_refl split: if_splits)
  from fill_model_Ok [OF assms(1) fm] obtain s3 where
    cm: "cm = Some a" and e1: "evolves_ex {a} s1 s3" and s': "s' = update_foreign_keys a s3"
    by blast
  from e0 e1 have "evolves_ex {a} s s3" by (rule evolves_ex_trans_same)
  with Some cm s' show ?thesis by auto
qed





section \<open>A larger recursion budget does not change a finished call\<close>

lemma extendsD: "extends D D' \<Longrightarrow> D v s = (r, s') \<Longrightarrow> r \<noteq> OutOfFuel \<Longrightarrow> D' v s = (r, s')"
  unfolding extends_def by blast

lemma extends_fst: "extends D D' \<Longrightarrow> fst (D v s) \<noteq> OutOfFuel \<Longrightarrow> D' v s = D v s"
  using extendsD [of D D' v s "fst (D v s)" "snd (D v s)"] by simp

lemma and_then_mono:
  assumes run: "and_then m f = (r, t)" and r: "r \<noteq> OutOfFuel"
    and first: "fst m \<noteq> OutOfFuel \<Longrightarrow> m' = m"
    and rest: "\<And>x s1. m = (Ok x, s1) \<Longrightarrow> f x s1 = (r, t) \<Longrightarrow> f' x s1 = (r, t)"
  shows "and_then m' f' = (r, t)"
proof (rule and_then_cases [OF run], goal_cases)
  case (1 x s1)
  with first have "m' = (Ok x, s1)" by simp
  with rest [OF 1] show ?case by simp
next
  case (2 e)
  with first have "m' = (Raise e, t)" by simp
  with 2 show ?case by simp
next
  case 3
  with r show ?case by simp
qed

lemma try_assign_mono:
  assumes "extends D D'" and "try_assign E D cm key raw v s = (r, s')" and "r \<noteq> OutOfFuel"
  shows "try_assign E D' cm key raw v s = (r, s')"
proof (cases "v \<noteq> PNone")
  case True
  with assms(2) have run: "and_then (D raw s) (\<lambda>v s1. setattr E cm key v s1) = (r, s')"
    by (simp add: try_assign_def)
  have "and_then (D' raw s) (\<lambda>v s1. setattr E cm key v s1) = (r, s')"
    by (rule and_then_mono [OF run assms(3)]) (simp_all add: extends_fst [OF assms(1)])
  with True show ?thesis by (simp add: try_assign_def)
next
  case False
  with assms(2) show ?thesis by (simp add: try_assign_def)
qed

lemma assign_field_mono:
  assumes "extends D D'" and "assign_field E D cm key raw s = (r, s')" and "r \<noteq> OutOfFuel"
  shows "assign_field E D' cm key raw s = (r, s')"
  unfolding assign_field_def
proof (rule and_then_mono [OF assms(2) [unfolded assign_field_def] assms(3)])
  show "fst (D raw s) \<noteq> OutOfFuel \<Longrightarrow> D' raw s = D raw s"
    by (rule extends_fst [OF assms(1)])
next
  fix v s1
  assume h: "(case try_assign E D cm key raw v s1 of
         (Ok u, s2) \<Rightarrow> (Ok u, s2)
       | (OutOfFuel, s2) \<Rightarrow> (OutOfFuel, s2)
       | (Raise e, s2) \<Rightarrow>
           (if sublist ''None is not list-like'' (exc_message e)
            then setattr E cm key (PList []) s2
            else (Ok (), s2))) = (r, s')"
  obtain r2 s2 where t: "try_assign E D cm key raw v s1 = (r2, s2)"
    by (cases "try_assign E D cm key raw v s1")
  have "r2 \<noteq> OutOfFuel"
    using h t assms(3) by (cases r2) auto
  then have "try_assign E D' cm key raw v s1 = (r2, s2)"
    using try_assign_mono [OF assms(1) t] by simp
  with h t show "(case try_assign E D' cm key raw v s1 of
         (Ok u, s2) \<Rightarrow> (Ok u, s2)
       | (OutOfFuel, s2) \<Rightarrow> (OutOfFuel, s2)
       | (Raise e, s2) \<Rightarrow>
           (if sublist ''None is not list-like'' (exc_message e)
            then setattr E cm key (PList []) s2
            else (Ok (), s2))) = (r, s')"
    by simp
qed

lemma populate_mono:
  assumes "extends D D'"
  shows "populate E D cm items s = (r, s') \<Longrightarrow> r \<noteq> OutOfFuel \<Longrightarrow>
         populate E D' cm items s = (r, s')"
proof (induction items arbitrary: s)
  case Nil
  then show ?case by simp
next
  case (Cons item items)
  obtain key raw where item: "item = (key, raw)" by (cases item)
  obtain r1 s1 where a: "assign_field E D cm key raw s = (r1, s1)"
    by (cases "assign_field E D cm key raw s")
  have r1: "r1 \<noteq> OutOfFuel"
    using Cons.prems item a by (cases r1) auto
  have a': "assign_field E D' cm key raw s = (r1, s1)"
    using assign_field_mono [OF assms a r1] .
  show ?case
  proof (cases r1)
    case (Ok u)
    with Cons.prems item a have "populate E D cm items s1 = (r, s')" by simp
    then have "populate E D' cm items s1 = (r, s')"
      using Cons.prems(2) by (rule Cons.IH)
    with item a' Ok show ?thesis by simp
  next
    case (Raise e)
    with Cons.prems(1) item a have "r = Raise e" and "s' = s1" by simp_all
    with item a' Raise show ?thesis by simp
  next
    case OutOfFuel
    with r1 show ?thesis by simp
  qed
qed

lemma fill_model_mono:
  assumes "extends D D'" and "fill_model E D cm kvs s = (r, s')" and "r \<noteq> OutOfFuel"
  shows "fill_model E D' cm kvs s = (r, s')"
  unfolding fill_model_def
proof (rule and_then_mono [OF assms(2) [unfolded fill_model_def] assms(3)])
  assume "fst (populate E D cm kvs s) \<noteq> OutOfFuel"
  then show "populate E D' cm kvs s = populate E D cm kvs s"
    using populate_mono [OF assms(1), of E cm kvs s "fst (populate E D cm kvs s)" "snd (populate E D cm kvs s)"]
    by simp
qed

lemma update_nova_model_mono:
  assumes "extends D D'" and "update_nova_model E D obj s = (r, s')" and "r \<noteq> OutOfFuel"
  shows "update_nova_model E D' obj s = (r, s')"
proof (cases "get_key E obj")
  case (Ok key)
  show ?thesis
  proof (cases "cache s key")
    case None
    with assms(2) Ok show ?thesis by (simp add: update_nova_model_def)
  next
    case (Some cm)
    from assms(2) Ok Some have run:
      "and_then
         (if has_key (snd obj) ''simplify_strategy'' then fetch_record E obj s else (Ok obj, s))
         (\<lambda>obj1 s1. fill_model E D cm (snd obj1) s1) = (r, s')"
      by (simp add: update_nova_model_def)
    have "and_then
         (if has_key (snd obj) ''simplify_strategy'' then fetch_record E obj s else (Ok obj, s))
         (\<lambda>obj1 s1. fill_model E D' cm (snd obj1) s1) = (r, s')"
      by (rule and_then_mono [OF run assms(3)]) (simp_all add: fill_model_mono [OF assms(1) _ assms(3)])
    with Ok Some show ?thesis by (simp add: update_nova_model_def)
  qed
next
  case (Raise e)
  with assms(2) show ?thesis by (simp add: update_nova_model_def)
next
  case OutOfFuel
  with assms(2) show ?thesis by (simp add: update_nova_model_def)
qed

lemma novabase_desimplify_mono:
  assumes "extends D D'" and "novabase_desimplify E D obj s = (r, s')" and "r \<noteq> OutOfFuel"
  shows "novabase_desimplify E D' obj s = (r, s')"
proof (cases "get_key E obj")
  case (Ok key)
  let ?lookup = "\<lambda>(u::unit) s3. case cache s3 key of
                       Some r \<Rightarrow> (Ok (ref_val r), s3)
                     | None \<Rightarrow> (Raise (PyExc KeyError (quoted key)), s3)"
  let ?inner = "\<lambda>D. and_then (spawn_empty_model E obj s) (\<lambda>r s1.
            and_then (update_nova_model E D obj (s1\<lparr>cache := (cache s1)(key \<mapsto> r)\<rparr>))
              (\<lambda>_ s2. (Ok (), s2)))"
  show ?thesis
  proof (cases "cache s key = None")
    case False
    with assms(2) Ok show ?thesis by (auto simp: novabase_desimplify_def)
  next
    case True
    with assms(2) Ok have run: "and_then (?inner D) ?lookup = (r, s')"
      by (simp add: novabase_desimplify_def)
    have inner: "?inner D' = ?inner D" if nf: "fst (?inner D) \<noteq> OutOfFuel"
    proof -
      obtain r0 s0 where i0: "?inner D = (r0, s0)" by (cases "?inner D")
      with nf have r0: "r0 \<noteq> OutOfFuel" by simp
      have "?inner D' = (r0, s0)"
      proof (rule and_then_mono [OF i0 r0])
        fix c s1
        assume h: "and_then (update_nova_model E D obj (s1\<lparr>cache := (cache s1)(key \<mapsto> c)\<rparr>))
              (\<lambda>_ s2. (Ok (), s2)) = (r0, s0)"
        show "and_then (update_nova_model E D' obj (s1\<lparr>cache := (cache s1)(key \<mapsto> c)\<rparr>))
              (\<lambda>_ s2. (Ok (), s2)) = (r0, s0)"
        proof (rule and_then_mono [OF h r0])
          let ?u = "update_nova_model E D obj (s1\<lparr>cache := (cache s1)(key \<mapsto> c)\<rparr>)"
          assume "fst ?u \<noteq> OutOfFuel"
          then show "update_nova_model E D' obj (s1\<lparr>cache := (cache s1)(key \<mapsto> c)\<rparr>) = ?u"
            using update_nova_model_mono [OF assms(1), of E obj _ "fst ?u" "snd ?u"] by simp
        qed
      qed simp
      with i0 show ?thesis by simp
    qed
    have "and_then (?inner D') ?lookup = (r, s')"
      by (rule and_then_mono [OF run assms(3)]) (use inner in simp_all)
    with True Ok show ?thesis by (simp add: novabase_desimplify_def)
  qed
next
  case (Raise e)
  with assms(2) show ?thesis by (simp add: novabase_desimplify_def)
next
  case OutOfFuel
  with assms(2) show ?thesis by (simp add: novabase_desimplify_def)
qed

lemma desimplify_items_mono:
  assumes "extends D D'"
  shows "desimplify_items D items s = (r, s') \<Longrightarrow> r \<noteq> OutOfFuel \<Longrightarrow>
         desimplify_items D' items s = (r, s')"
proof (induction items arbitrary: s r s')
  case Nil
  then show ?case by simp
next
  case (Cons item items)
  obtain r1 s1 where d: "D item s = (r1, s1)" by (cases "D item s")
  have r1: "r1 \<noteq> OutOfFuel"
    using Cons.prems d by (cases r1) auto
  have d': "D' item s = (r1, s1)"
    using extendsD [OF assms d r1] .
  show ?case
  proof (cases r1)
    case (Ok x)
    obtain r2 s2 where rest: "desimplify_items D items s1 = (r2, s2)"
      by (cases "desimplify_items D items s1")
    have r2: "r2 \<noteq> OutOfFuel"
      using Cons.prems d Ok rest by (cases r2) auto
    have "desimplify_items D' items s1 = (r2, s2)"
      using Cons.IH [OF rest r2] .
    with Cons.prems(1) d d' Ok rest show ?thesis by simp
  next
    case (Raise e)
    with Cons.prems d d' show ?thesis by simp
  next
    case OutOfFuel
    with r1 show ?thesis by simp
  qed
qed

lemma dispatch_mono:
  assumes "extends D D'" and "dispatch E D obj s = (r, s')" and "r \<noteq> OutOfFuel"
  shows "dispatch E D' obj s = (r, s')"
proof (cases obj)
  case (PList items)
  obtain r1 s1 where it: "desimplify_items D items s = (r1, s1)"
    by (cases "desimplify_items D items s")
  have "r1 \<noteq> OutOfFuel"
    using assms(2,3) PList it by (cases r1) (auto simp: dispatch_def)
  then have "desimplify_items D' items s = (r1, s1)"
    using desimplify_items_mono [OF assms(1) it] by simp
  with assms(2) PList it show ?thesis by (simp add: dispatch_def)
next
  case (PDict i kvs)
  show ?thesis
  proof (cases "tagged_object kvs")
    case True
    with assms(2,3) PDict show ?thesis
      by (simp add: dispatch_tagged novabase_desimplify_mono [OF assms(1)])
  next
    case False
    then have "dispatch E D' obj s = dispatch E D obj s"
      unfolding PDict by (auto simp: dispatch_def tagged_object_def has_key_def split: if_splits)
    with assms(2) show ?thesis by simp
  qed
qed (use assms(2) in \<open>auto simp: dispatch_def\<close>)

lemma desimplify_body_mono:
  assumes "extends D D'" and "desimplify_body E D obj s = (r, s')" and "r \<noteq> OutOfFuel"
  shows "desimplify_body E D' obj s = (r, s')"
  unfolding desimplify_body_def
proof (rule and_then_mono [OF assms(2) [unfolded desimplify_body_def] assms(3)])
  assume "fst (dispatch E D obj s) \<noteq> OutOfFuel"
  then show "dispatch E D' obj s = dispatch E D obj s"
    using dispatch_mono [OF assms(1), of E obj s "fst (dispatch E D obj s)" "snd (dispatch E D obj s)"]
    by simp
qed

lemma desimplify_extends_Suc: "extends (desimplify E n) (desimplify E (Suc n))"
proof (induction n)
  case 0
  show ?case by (simp add: extends_def)
next
  case (Suc n)
  show ?case
    unfolding extends_def
  proof (intro allI impI)
    fix v s r s'
    assume "desimplify E (Suc n) v s = (r, s')" and r: "r \<noteq> OutOfFuel"
    then have "desimplify_body E (desimplify E n) v s = (r, s')" by simp
    then have "desimplify_body E (desimplify E (Suc n)) v s = (r, s')"
      using r by (rule desimplify_body_mono [OF Suc])
    then show "desimplify E (Suc (Suc n)) v s = (r, s')" by simp
  qed
qed

lemma extends_refl: "extends D D"
  by (simp add: extends_def)

lemma extends_trans: "extends D D1 \<Longrightarrow> extends D1 D2 \<Longrightarrow> extends D D2"
  unfolding extends_def by blast

lemma desimplify_extends: "n \<le> m \<Longrightarrow> extends (desimplify E n) (desimplify E m)"
proof (induction m)
  case 0
  then show ?case by (simp add: extends_refl)
next
  case (Suc m)
  show ?case
  proof (cases "n = Suc m")
    case True
    then show ?thesis by (simp add: extends_refl)
  next
    case False
    with Suc.prems have "n \<le> m" by simp
    then have "extends (desimplify E n) (desimplify E m)" by (rule Suc.IH)
    then show ?thesis using desimplify_extends_Suc by (rule extends_trans)
  qed
qed

section \<open>Termination\<close>

lemma finite_store_keys: "finite (store_keys E)"
  by (simp add: store_keys_def)

lemma pending_mono:
  assumes "evolves_ex X s s'"
  shows "pending E s' \<le> pending E s"
proof -
  from assms have "dom (cache s) \<subseteq> dom (cache s')"
    by (simp add: evolves_ex_def map_le_implies_dom_le)
  then have "store_keys E - dom (cache s') \<subseteq> store_keys E - dom (cache s)"
    by blast
  then show ?thesis
    unfolding pending_def by (intro card_mono) (simp_all add: finite_store_keys)
qed

lemma pending_less:
  assumes "key \<in> store_keys E" and "key \<notin> dom (cache s)" and "key \<in> dom (cache s')"
    and "dom (cache s) \<subseteq> dom (cache s')"
  shows "pending E s' < pending E s"
proof -
  from assms have "store_keys E - dom (cache s') \<subset> store_keys E - dom (cache s)"
    by blast
  then show ?thesis
    unfolding pending_def by (intro psubset_card_mono) (simp_all add: finite_store_keys)
qed

lemma finishes_at:
  assumes "fst (desimplify E n v s) \<noteq> OutOfFuel" and "n \<le> m"
  shows "desimplify E m v s = desimplify E n v s"
  using extends_fst [OF desimplify_extends [OF assms(2)] assms(1)] .

lemma and_then_not_fuel:
  assumes "fst m \<noteq> OutOfFuel"
    and "\<And>x s. m = (Ok x, s) \<Longrightarrow> fst (f x s) \<noteq> OutOfFuel"
  shows "fst (and_then m f) \<noteq> OutOfFuel"
proof (cases m)
  case (Pair r s)
  with assms show ?thesis by (cases r) auto
qed

lemma setattr_not_fuel: "fst (setattr E cm key v s) \<noteq> OutOfFuel"
  by (simp add: setattr_def split: option.splits)

lemma getitem_not_fuel: "getitem kvs k \<noteq> OutOfFuel"
  by (simp add: getitem_def split: option.splits)

lemma get_key_not_fuel: "get_key E obj \<noteq> OutOfFuel"
  using getitem_not_fuel [of "snd obj"]
  by (auto simp: get_key_def split: outcome.splits)

lemma copy_scoping_field_not_fuel: "fst (copy_scoping_field E cm kvs name s) \<noteq> OutOfFuel"
  using getitem_not_fuel [of kvs name] setattr_not_fuel [of E cm name _ s]
  by (auto simp: copy_scoping_field_def split: outcome.splits)

lemma fixup_not_fuel: "fst (fixup v s) \<noteq> OutOfFuel"
  by (cases v) (simp_all add: fixup_def)

lemma fetch_record_not_fuel: "fst (fetch_record E obj s) \<noteq> OutOfFuel"
  using getitem_not_fuel [of "snd obj"]
  by (auto simp: fetch_record_def fetch_def split: outcome.splits pyval.splits option.splits)

lemma spawn_not_fuel: "fst (spawn_empty_model E obj s) \<noteq> OutOfFuel"
proof (cases "class_name_field (snd obj)")
  case None
  then show ?thesis by (simp add: spawn_empty_model_def)
next
  case (Some name)
  show ?thesis
  proof (cases "get_model_class_from_name E name")
    case None
    with Some show ?thesis
      by (cases name) (simp_all add: spawn_empty_model_def)
  next
    case (Some cls)
    with \<open>class_name_field (snd obj) = Some name\<close> get_key_not_fuel [of E obj] show ?thesis
      by (cases name; cases "get_key E obj") (simp_all add: spawn_empty_model_def Let_def split: option.splits)
  qed
qed

lemma try_assign_not_fuel:
  assumes "v \<noteq> PNone \<Longrightarrow> fst (D raw s) \<noteq> OutOfFuel"
  shows "fst (try_assign E D cm key raw v s) \<noteq> OutOfFuel"
proof (cases "v \<noteq> PNone")
  case True
  with assms show ?thesis
    by (simp add: try_assign_def and_then_not_fuel setattr_not_fuel)
next
  case False
  then show ?thesis by (simp add: try_assign_def setattr_not_fuel)
qed

lemma assign_field_not_fuel:
  assumes "D raw s = (r1, s1)" and "r1 \<noteq> OutOfFuel"
    and "\<And>v. r1 = Ok v \<Longrightarrow> v \<noteq> PNone \<Longrightarrow> fst (D raw s1) \<noteq> OutOfFuel"
  shows "fst (assign_field E D cm key raw s) \<noteq> OutOfFuel"
  unfolding assign_field_def
proof (rule and_then_not_fuel)
  show "fst (D raw s) \<noteq> OutOfFuel" using assms(1,2) by simp
next
  fix v s2
  assume "D raw s = (Ok v, s2)"
  with assms(1) have r1: "r1 = Ok v" and s2: "s2 = s1" by simp_all
  obtain r3 s3 where t: "try_assign E D cm key raw v s2 = (r3, s3)"
    by (cases "try_assign E D cm key raw v s2")
  have "r3 \<noteq> OutOfFuel"
    using try_assign_not_fuel [of v D raw s2 E cm key] assms(3) [OF r1] t s2 by auto
  then show "fst (case try_assign E D cm key raw v s2 of
         (Ok u, s2) \<Rightarrow> (Ok u, s2)
       | (OutOfFuel, s2) \<Rightarrow> (OutOfFuel, s2)
       | (Raise e, s2) \<Rightarrow>
           (if sublist ''None is not list-like'' (exc_message e)
            then setattr E cm key (PList []) s2
            else (Ok (), s2))) \<noteq> OutOfFuel"
    unfolding t using setattr_not_fuel [of E cm key "PList []" s3]
    by (cases r3) auto
qed

lemma assign_field_finishes:
  assumes fin: "\<And>s'. pending E s' \<le> pending E s \<Longrightarrow> finishes E raw s'"
  shows "\<exists>n. fst (assign_field E (desimplify E n) cm key raw s) \<noteq> OutOfFuel"
proof -
  from fin [of s] obtain n1 where n1: "fst (desimplify E n1 raw s) \<noteq> OutOfFuel"
    by (auto simp: finishes_def)
  obtain r1 s1 where d1: "desimplify E n1 raw s = (r1, s1)"
    by (cases "desimplify E n1 raw s")
  have "pending E s1 \<le> pending E s"
    using desimplify_evolves [OF d1] by (rule pending_mono)
  from fin [OF this] obtain n2 where n2: "fst (desimplify E n2 raw s1) \<noteq> OutOfFuel"
    by (auto simp: finishes_def)
  let ?n = "max n1 n2"
  have e1: "desimplify E ?n raw s = (r1, s1)"
    using finishes_at [OF n1, of ?n] d1 by simp
  have e2: "fst (desimplify E ?n raw s1) \<noteq> OutOfFuel"
    using finishes_at [OF n2, of ?n] n2 by simp
  have "fst (assign_field E (desimplify E ?n) cm key raw s) \<noteq> OutOfFuel"
    using e1 _ e2 by (rule assign_field_not_fuel) (use n1 d1 in simp)
  then show ?thesis ..
qed

lemma populate_finishes:
  assumes fin: "\<And>key raw s'. (key, raw) \<in> set items \<Longrightarrow> pending E s' \<le> k \<Longrightarrow> finishes E raw s'"
  shows "pending E s \<le> k \<Longrightarrow> \<exists>n. fst (populate E (desimplify E n) cm items s) \<noteq> OutOfFuel"
  using fin
proof (induction items arbitrary: s)
  case Nil
  show ?case by simp
next
  case (Cons item items)
  obtain key raw where item: "item = (key, raw)" by (cases item)
  have "\<exists>n. fst (assign_field E (desimplify E n) cm key raw s) \<noteq> OutOfFuel"
  proof (rule assign_field_finishes)
    fix s'
    assume "pending E s' \<le> pending E s"
    with Cons.prems(1) have "pending E s' \<le> k" by simp
    then show "finishes E raw s'"
      using Cons.prems(2) [of key raw s'] item by simp
  qed
  then obtain n1 where n1: "fst (assign_field E (desimplify E n1) cm key raw s) \<noteq> OutOfFuel" ..
  obtain r1 s1 where a1: "assign_field E (desimplify E n1) cm key raw s = (r1, s1)"
    by (cases "assign_field E (desimplify E n1) cm key raw s")
  from n1 a1 have r1: "r1 \<noteq> OutOfFuel" by simp
  have "pending E s1 \<le> pending E s"
    using assign_field_evolves [OF desimplify_preserves a1] by (rule pending_mono)
  with Cons.prems(1) have "pending E s1 \<le> k" by simp
  then have "\<exists>n. fst (populate E (desimplify E n) cm items s1) \<noteq> OutOfFuel"
    by (rule Cons.IH) (use Cons.prems(2) in auto)
  then obtain n2 where n2: "fst (populate E (desimplify E n2) cm items s1) \<noteq> OutOfFuel" ..
  obtain r2 s2 where p2: "populate E (desimplify E n2) cm items s1 = (r2, s2)"
    by (cases "populate E (desimplify E n2) cm items s1")
  from n2 p2 have r2: "r2 \<noteq> OutOfFuel" by simp
  let ?n = "max n1 n2"
  have a: "assign_field E (desimplify E ?n) cm key raw s = (r1, s1)"
    by (rule assign_field_mono [OF _ a1 r1]) (simp add: desimplify_extends)
  have p: "populate E (desimplify E ?n) cm items s1 = (r2, s2)"
    by (rule populate_mono [OF _ p2 r2]) (simp add: desimplify_extends)
  have "fst (populate E (desimplify E ?n) cm (item # items) s) \<noteq> OutOfFuel"
    using a p r1 r2 item by (cases r1) simp_all
  then show ?case ..
qed

lemma fill_model_not_fuel:
  assumes "fst (populate E D cm kvs s) \<noteq> OutOfFuel"
  shows "fst (fill_model E D cm kvs s) \<noteq> OutOfFuel"
  unfolding fill_model_def
proof (intro and_then_not_fuel assms copy_scoping_field_not_fuel)
  fix s3
  show "fst (case cm of
         None \<Rightarrow> (Raise (PyExc AttributeError
                    ''NoneType object has no attribute update_foreign_keys''), s3)
       | Some a \<Rightarrow> (Ok a, update_foreign_keys a s3)) \<noteq> OutOfFuel"
    by (cases cm) simp_all
qed

lemma fill_model_finishes:
  assumes "\<And>key raw s'. (key, raw) \<in> set kvs \<Longrightarrow> pending E s' \<le> k \<Longrightarrow> finishes E raw s'"
    and "pending E s \<le> k"
  shows "\<exists>n. fst (fill_model E (desimplify E n) cm kvs s) \<noteq> OutOfFuel"
proof -
  have "\<exists>n. fst (populate E (desimplify E n) cm kvs s) \<noteq> OutOfFuel"
  proof (rule populate_finishes)
    fix key raw s'
    assume "(key, raw) \<in> set kvs" and "pending E s' \<le> k"
    then show "finishes E raw s'" by (rule assms(1))
  next
    show "pending E s \<le> k" by (rule assms(2))
  qed
  then show ?thesis using fill_model_not_fuel by blast
qed

lemma evolves_dom: "evolves_ex X s s' \<Longrightarrow> dom (cache s) \<subseteq> dom (cache s')"
  by (simp add: evolves_ex_def map_le_implies_dom_le)

lemma fetch_record_Ok:
  assumes "fetch_record E obj s = (Ok obj1, s1)"
  shows "cache s1 = cache s \<and> heap s1 = heap s \<and>
     (\<exists>bucket i. map_of (snd obj) ''tablename'' = Some (PStr bucket) \<and>
        map_of (snd obj) ''id'' = Some i \<and>
        map_of (store E) (bucket, py_str E i) = Some obj1)"
  using assms
  by (auto simp: fetch_record_def fetch_def getitem_def
      split: outcome.splits pyval.splits option.splits)

lemma fetched_key:
  assumes "fetch_record E obj s = (Ok obj1, s1)" and "get_key E obj = Ok key"
  shows "key \<in> store_keys E"
proof -
  from fetch_record_Ok [OF assms(1)] obtain bucket i where
    t: "map_of (snd obj) ''tablename'' = Some (PStr bucket)"
    and i: "map_of (snd obj) ''id'' = Some i"
    and st: "map_of (store E) (bucket, py_str E i) = Some obj1"
    by blast
  from assms(2) t i have "key = bucket @ ''-'' @ py_str E i"
    by (simp add: get_key_def is_dict_and_has_key_def has_key_def getitem_def py_str_def)
  moreover from st have "((bucket, py_str E i), obj1) \<in> set (store E)"
    by (rule map_of_SomeD)
  ultimately show ?thesis
    unfolding store_keys_def by force
qed

lemma update_nova_model_finishes:
  assumes outer: "\<And>v s'. pending E s' < k \<Longrightarrow> finishes E v s'"
    and inner: "\<And>key raw s'. (key, raw) \<in> set (snd obj) \<Longrightarrow> pending E s' \<le> k \<Longrightarrow> finishes E raw s'"
    and bound: "pending E s \<le> k"
    and key: "get_key E obj = Ok key"
    and before: "key \<notin> dom (cache s0)" "dom (cache s0) \<subseteq> dom (cache s)" "pending E s0 \<le> k"
  shows "\<exists>n. fst (update_nova_model E (desimplify E n) obj s) \<noteq> OutOfFuel"
proof (cases "cache s key")
  case None
  with key show ?thesis by (simp add: update_nova_model_def)
next
  case (Some cm)
  have unfold: "update_nova_model E D obj s =
      and_then
         (if has_key (snd obj) ''simplify_strategy'' then fetch_record E obj s else (Ok obj, s))
         (\<lambda>obj1 s1. fill_model E D cm (snd obj1) s1)" for D
    using key Some by (simp add: update_nova_model_def)
  show ?thesis
  proof (cases "has_key (snd obj) ''simplify_strategy''")
    case False
    have "\<exists>n. fst (fill_model E (desimplify E n) cm (snd obj) s) \<noteq> OutOfFuel"
    proof (rule fill_model_finishes [where k = k])
      fix key' raw s'
      assume "(key', raw) \<in> set (snd obj)" and "pending E s' \<le> k"
      then show "finishes E raw s'" by (rule inner)
    next
      show "pending E s \<le> k" by (rule bound)
    qed
    then obtain n where "fst (fill_model E (desimplify E n) cm (snd obj) s) \<noteq> OutOfFuel" ..
    with False have "fst (update_nova_model E (desimplify E n) obj s) \<noteq> OutOfFuel"
      by (simp add: unfold)
    then show ?thesis ..
  next
    case True
    obtain r1 s1 where f: "fetch_record E obj s = (r1, s1)"
      by (cases "fetch_record E obj s")
    show ?thesis
    proof (cases r1)
      case (Ok obj1)
      from fetch_record_Ok [OF f [unfolded Ok]] have c1: "cache s1 = cache s" by simp
      have "key \<in> store_keys E"
        using fetched_key [OF f [unfolded Ok] key] .
      moreover have "key \<in> dom (cache s1)" using Some c1 by auto
      moreover have "dom (cache s0) \<subseteq> dom (cache s1)" using before(2) c1 by simp
      ultimately have "pending E s1 < pending E s0"
        using before(1) by (intro pending_less [of key]) simp_all
      with before(3) have lt: "pending E s1 < k" by simp
      have "\<exists>n. fst (fill_model E (desimplify E n) cm (snd obj1) s1) \<noteq> OutOfFuel"
      proof (rule fill_model_finishes [where k = "pending E s1"])
        fix key' raw s'
        assume "pending E s' \<le> pending E s1"
        with lt have "pending E s' < k" by simp
        then show "finishes E raw s'" by (rule outer)
      qed simp
      then obtain n where "fst (fill_model E (desimplify E n) cm (snd obj1) s1) \<noteq> OutOfFuel" ..
      with True f Ok have "fst (update_nova_model E (desimplify E n) obj s) \<noteq> OutOfFuel"
        by (simp add: unfold)
      then show ?thesis ..
    next
      case (Raise e)
      with True f show ?thesis by (simp add: unfold)
    next
      case OutOfFuel
      with f fetch_record_not_fuel [of E obj s] show ?thesis by simp
    qed
  qed
qed

lemma novabase_desimplify_finishes:
  assumes outer: "\<And>v s'. pending E s' < k \<Longrightarrow> finishes E v s'"
    and inner: "\<And>key raw s'. (key, raw) \<in> set (snd obj) \<Longrightarrow> pending E s' \<le> k \<Longrightarrow> finishes E raw s'"
    and bound: "pending E s \<le> k"
  shows "\<exists>n. fst (novabase_desimplify E (desimplify E n) obj s) \<noteq> OutOfFuel"
proof (cases "get_key E obj")
  case (Ok key)
  let ?lookup = "\<lambda>(u::unit) s3. case cache s3 key of
                       Some r \<Rightarrow> (Ok (ref_val r), s3)
                     | None \<Rightarrow> (Raise (PyExc KeyError (quoted key)), s3)"
  have lookup: "fst (?lookup u s3) \<noteq> OutOfFuel" for u s3
    by (cases "cache s3 key") simp_all
  show ?thesis
  proof (cases "cache s key = None")
    case False
    have "fst (?lookup () s) \<noteq> OutOfFuel" by (rule lookup)
    with Ok False show ?thesis by (auto simp: novabase_desimplify_def)
  next
    case True
    have unfold: "novabase_desimplify E D obj s =
        and_then
         (and_then (spawn_empty_model E obj s) (\<lambda>r s1.
            and_then (update_nova_model E D obj (s1\<lparr>cache := (cache s1)(key \<mapsto> r)\<rparr>))
              (\<lambda>_ s2. (Ok (), s2))))
         ?lookup" for D
      using Ok True by (simp add: novabase_desimplify_def)
    obtain r1 t1 where sp: "spawn_empty_model E obj s = (r1, t1)"
      by (cases "spawn_empty_model E obj s")
    show ?thesis
    proof (cases r1)
      case (Ok c)
      let ?t1 = "t1\<lparr>cache := (cache t1)(key \<mapsto> c)\<rparr>"
      have ev: "evolves_ex {} s ?t1"
        using spawned_state(1) [OF sp [unfolded Ok] \<open>get_key E obj = Ok key\<close> True] .
      then have b1: "pending E ?t1 \<le> k"
        using pending_mono [of "{}" s ?t1 E] bound by simp
      from ev have d1: "dom (cache s) \<subseteq> dom (cache ?t1)"
        by (rule evolves_dom)
      from True have nk: "key \<notin> dom (cache s)" by auto
      have "\<exists>n. fst (update_nova_model E (desimplify E n) obj ?t1) \<noteq> OutOfFuel"
      proof (rule update_nova_model_finishes [where k = k and ?s0.0 = s and key = key])
        fix v s'
        assume "pending E s' < k"
        then show "finishes E v s'" by (rule outer)
      next
        fix key' raw s'
        assume "(key', raw) \<in> set (snd obj)" and "pending E s' \<le> k"
        then show "finishes E raw s'" by (rule inner)
      qed (fact b1 \<open>get_key E obj = Ok key\<close> nk d1 bound)+
      then obtain n where n: "fst (update_nova_model E (desimplify E n) obj ?t1) \<noteq> OutOfFuel" ..
      have "fst (novabase_desimplify E (desimplify E n) obj s) \<noteq> OutOfFuel"
        unfolding unfold sp Ok
        by (intro and_then_not_fuel lookup) (use n in simp_all)
      then show ?thesis ..
    next
      case (Raise e)
      with sp show ?thesis by (simp add: unfold)
    next
      case OutOfFuel
      with sp spawn_not_fuel [of E obj s] show ?thesis by simp
    qed
  qed
next
  case (Raise e)
  then show ?thesis by (simp add: novabase_desimplify_def)
next
  case OutOfFuel
  with get_key_not_fuel [of E obj] show ?thesis by simp
qed

lemma desimplify_items_finishes:
  assumes fin: "\<And>x s'. x \<in> set items \<Longrightarrow> pending E s' \<le> k \<Longrightarrow> finishes E x s'"
  shows "pending E s \<le> k \<Longrightarrow> \<exists>n. fst (desimplify_items (desimplify E n) items s) \<noteq> OutOfFuel"
  using fin
proof (induction items arbitrary: s)
  case Nil
  show ?case by simp
next
  case (Cons item items)
  from Cons.prems(2) [of item s] Cons.prems(1)
  obtain n1 where n1: "fst (desimplify E n1 item s) \<noteq> OutOfFuel"
    by (auto simp: finishes_def)
  obtain r1 s1 where d1: "desimplify E n1 item s = (r1, s1)"
    by (cases "desimplify E n1 item s")
  from n1 d1 have r1: "r1 \<noteq> OutOfFuel" by simp
  have "pending E s1 \<le> pending E s"
    using desimplify_evolves [OF d1] by (rule pending_mono)
  with Cons.prems(1) have "pending E s1 \<le> k" by simp
  then have "\<exists>n. fst (desimplify_items (desimplify E n) items s1) \<noteq> OutOfFuel"
    by (rule Cons.IH) (use Cons.prems(2) in auto)
  then obtain n2 where n2: "fst (desimplify_items (desimplify E n2) items s1) \<noteq> OutOfFuel" ..
  obtain r2 s2 where p2: "desimplify_items (desimplify E n2) items s1 = (r2, s2)"
    by (cases "desimplify_items (desimplify E n2) items s1")
  from n2 p2 have r2: "r2 \<noteq> OutOfFuel" by simp
  let ?n = "max n1 n2"
  have a: "desimplify E ?n item s = (r1, s1)"
    using finishes_at [OF n1, of ?n] d1 by simp
  have p: "desimplify_items (desimplify E ?n) items s1 = (r2, s2)"
    by (rule desimplify_items_mono [OF _ p2 r2]) (simp add: desimplify_extends)
  have "fst (desimplify_items (desimplify E ?n) (item # items) s) \<noteq> OutOfFuel"
    using a p r1 r2 by (cases r1; cases r2) simp_all
  then show ?case ..
qed

lemma desimplify_Suc_not_fuel:
  "fst (dispatch E (desimplify E n) v s) \<noteq> OutOfFuel \<Longrightarrow> fst (desimplify E (Suc n) v s) \<noteq> OutOfFuel"
  by (simp add: desimplify_body_def and_then_not_fuel fixup_not_fuel)

lemma untagged_dispatch_not_fuel:
  assumes "\<not> tagged_object kvs"
  shows "fst (dispatch E D (PDict i kvs) s) \<noteq> OutOfFuel"
proof -
  have dt: "datetime_desimplify E kvs \<noteq> OutOfFuel"
    using getitem_not_fuel [of kvs]
    by (auto simp: datetime_desimplify_def split: outcome.splits pyval.splits option.splits)
  have ip: "ipnetwork_desimplify E kvs \<noteq> OutOfFuel"
    using getitem_not_fuel [of kvs]
    by (auto simp: ipnetwork_desimplify_def split: outcome.splits option.splits)
  from assms dt ip show ?thesis
    by (auto simp: dispatch_def tagged_object_def split: if_splits)
qed

lemma finishes_struct:
  assumes outer: "\<And>v s'. pending E s' < k \<Longrightarrow> finishes E v s'"
  shows "pending E s \<le> k \<Longrightarrow> finishes E v s"
proof (induction v arbitrary: s)
  case (PList items)
  have "\<exists>n. fst (desimplify_items (desimplify E n) items s) \<noteq> OutOfFuel"
    by (rule desimplify_items_finishes [where k = k]) (use PList in auto)
  then obtain n where n: "fst (desimplify_items (desimplify E n) items s) \<noteq> OutOfFuel" ..
  have "fst (dispatch E (desimplify E n) (PList items) s) \<noteq> OutOfFuel"
    using n by (simp add: dispatch_def and_then_not_fuel)
  then show ?case
    unfolding finishes_def using desimplify_Suc_not_fuel by blast
next
  case (PDict i kvs)
  show ?case
  proof (cases "tagged_object kvs")
    case False
    then show ?thesis
      unfolding finishes_def using untagged_dispatch_not_fuel desimplify_Suc_not_fuel by blast
  next
    case True
    have "\<exists>n. fst (novabase_desimplify E (desimplify E n) (i, kvs) s) \<noteq> OutOfFuel"
    proof (rule novabase_desimplify_finishes [where k = k])
      fix key raw s'
      assume "(key, raw) \<in> set (snd (i, kvs))" and "pending E s' \<le> k"
      then show "finishes E raw s'"
        using PDict.IH [of "(key, raw)" raw s'] by simp
    qed (use outer PDict.prems in auto)
    then obtain n where "fst (novabase_desimplify E (desimplify E n) (i, kvs) s) \<noteq> OutOfFuel" ..
    with True have "fst (dispatch E (desimplify E n) (PDict i kvs) s) \<noteq> OutOfFuel"
      by (simp add: dispatch_tagged)
    then show ?thesis
      unfolding finishes_def using desimplify_Suc_not_fuel by blast
  qed
qed (simp_all add: finishes_def exI [of _ "Suc 0"] desimplify_body_def dispatch_def fixup_def update_foreign_keys_def)

lemma desimplify_finishes: "finishes E v s"
proof (induction "pending E s" arbitrary: v s rule: less_induct)
  case less
  show ?case
    by (rule finishes_struct [where k = "pending E s"]) (use less in auto)
qed


section \<open>Self-references\<close>

lemma tagged_cached:
  assumes "tagged_object kvs" and "get_key E (j, kvs) = Ok key" and "cache s key = Some (Some a)"
  shows "desimplify E (Suc m) (PDict j kvs) s = (Ok (PObj a), update_foreign_keys a s)"
  using assms
  by (simp add: desimplify_body_def dispatch_tagged novabase_cache_hit [where c = "Some a"]
      ref_val_def fixup_def)

lemma keeps_refl: "keeps a f s s"
  by (simp add: keeps_def)

lemma keeps_trans: "keeps a f s s1 \<Longrightarrow> keeps a f s1 s2 \<Longrightarrow> keeps a f s s2"
  by (auto simp: keeps_def)

lemma evolves_keeps: "evolves_ex X s s' \<Longrightarrow> a \<notin> X \<Longrightarrow> keeps a f s s'"
  by (auto simp: evolves_ex_def keeps_def)

lemma setattr_keeps:
  assumes "setattr E cm key v s = (r, s')" and "key \<noteq> f"
  shows "keeps a f s s'"
proof (cases cm)
  case None
  with assms show ?thesis by (simp add: setattr_def keeps_refl)
next
  case (Some b)
  show ?thesis
  proof (cases "setter E (klass (heap s ! b)) key v")
    case (Some e)
    with assms \<open>cm = Some b\<close> show ?thesis by (simp add: setattr_def keeps_refl)
  next
    case None
    with assms \<open>cm = Some b\<close> have
      "s' = s\<lparr>heap := (heap s)[b := (heap s ! b)\<lparr>attrs := (attrs (heap s ! b))(key \<mapsto> v)\<rparr>]\<rparr>"
      by (simp add: setattr_def)
    with assms(2) show ?thesis
      by (auto simp: keeps_def nth_list_update_cases)
  qed
qed

lemma update_foreign_keys_keeps: "keeps a f s (update_foreign_keys b s)"
  by (auto simp: keeps_def update_foreign_keys_def nth_list_update_cases)

lemma and_then_rel:
  assumes run: "and_then m g = (r, t)"
    and trans: "\<And>x y z. R x y \<Longrightarrow> R y z \<Longrightarrow> R x z"
    and first: "R s (snd m)"
    and rest: "\<And>x s1. m = (Ok x, s1) \<Longrightarrow> g x s1 = (r, t) \<Longrightarrow> R s1 t"
  shows "R s t"
proof (rule and_then_cases [OF run], goal_cases)
  case (1 x s1)
  with first rest trans [of s s1 t] show ?case by simp
next
  case (2 e)
  with first show ?case by simp
next
  case 3
  with first show ?case by simp
qed

lemma preserves_keeps: "preserves D \<Longrightarrow> keeps a f s (snd (D v s))"
  using preservesD [of D v s "fst (D v s)" "snd (D v s)" "{}"] evolves_keeps [of "{}" s _ a f]
  by simp

lemma try_assign_keeps:
  assumes "preserves D" and "key \<noteq> f" and "try_assign E D cm key raw v s = (r, s')"
  shows "keeps a f s s'"
proof (cases "v \<noteq> PNone")
  case True
  with assms(3) have run: "and_then (D raw s) (\<lambda>v s1. setattr E cm key v s1) = (r, s')"
    by (simp add: try_assign_def)
  show ?thesis
  proof (rule and_then_rel [OF run])
    show "keeps a f s (snd (D raw s))" by (rule preserves_keeps [OF assms(1)])
  next
    fix x s1
    assume "setattr E cm key x s1 = (r, s')"
    then show "keeps a f s1 s'" using assms(2) by (rule setattr_keeps)
  qed (rule keeps_trans)
next
  case False
  with assms(3) have "setattr E cm key raw s = (r, s')" by (simp add: try_assign_def)
  then show ?thesis using assms(2) by (rule setattr_keeps)
qed

lemma assign_field_keeps:
  assumes "preserves D" and "key \<noteq> f" and "assign_field E D cm key raw s = (r, s')"
  shows "keeps a f s s'"
proof (rule and_then_rel [OF assms(3) [unfolded assign_field_def]])
  show "keeps a f s (snd (D raw s))" by (rule preserves_keeps [OF assms(1)])
next
  fix v s1
  assume h: "(case try_assign E D cm key raw v s1 of
         (Ok u, s2) \<Rightarrow> (Ok u, s2)
       | (OutOfFuel, s2) \<Rightarrow> (OutOfFuel, s2)
       | (Raise e, s2) \<Rightarrow>
           (if sublist ''None is not list-like'' (exc_message e)
            then setattr E cm key (PList []) s2
            else (Ok (), s2))) = (r, s')"
  obtain r2 s2 where t: "try_assign E D cm key raw v s1 = (r2, s2)"
    by (cases "try_assign E D cm key raw v s1")
  have k1: "keeps a f s1 s2"
    using try_assign_keeps [OF assms(1,2) t] .
  show "keeps a f s1 s'"
  proof (cases r2)
    case (Ok u)
    with h t k1 show ?thesis by simp
  next
    case OutOfFuel
    with h t k1 show ?thesis by simp
  next
    case (Raise e)
    show ?thesis
    proof (cases "sublist ''None is not list-like'' (exc_message e)")
      case True
      with h t Raise have "setattr E cm key (PList []) s2 = (r, s')" by simp
      then have "keeps a f s2 s'" using assms(2) by (rule setattr_keeps)
      with k1 show ?thesis by (rule keeps_trans)
    next
      case False
      with h t Raise k1 show ?thesis by simp
    qed
  qed
qed (rule keeps_trans)

lemma populate_keeps:
  assumes "preserves D"
  shows "f \<notin> fst ` set items \<Longrightarrow> populate E D cm items s = (r, s') \<Longrightarrow> keeps a f s s'"
proof (induction items arbitrary: s)
  case Nil
  then show ?case by (simp add: keeps_refl)
next
  case (Cons item items)
  obtain key raw where item: "item = (key, raw)" by (cases item)
  with Cons.prems(1) have key: "key \<noteq> f" and rest: "f \<notin> fst ` set items" by auto
  obtain r1 s1 where a: "assign_field E D cm key raw s = (r1, s1)"
    by (cases "assign_field E D cm key raw s")
  have k1: "keeps a f s s1"
    using assign_field_keeps [OF assms key a] .
  show ?case
  proof (cases r1)
    case (Ok u)
    with Cons.prems(2) item a have "populate E D cm items s1 = (r, s')" by simp
    with rest have "keeps a f s1 s'" by (rule Cons.IH)
    with k1 show ?thesis by (rule keeps_trans)
  next
    case (Raise e)
    with Cons.prems(2) item a k1 show ?thesis by simp
  next
    case OutOfFuel
    with Cons.prems(2) item a k1 show ?thesis by simp
  qed
qed

lemma copy_scoping_field_keeps:
  assumes "copy_scoping_field E cm kvs name s = (r, s')" and "name \<noteq> f"
  shows "keeps a f s s'"
proof (cases "hasattr E cm name s \<and> has_key kvs name")
  case False
  with assms(1) show ?thesis by (auto simp: copy_scoping_field_def keeps_refl)
next
  case True
  show ?thesis
  proof (cases "getitem kvs name")
    case (Ok v)
    with assms(1) True have "setattr E cm name v s = (r, s')"
      by (simp add: copy_scoping_field_def)
    then show ?thesis using assms(2) by (rule setattr_keeps)
  next
    case (Raise e)
    with assms(1) True show ?thesis by (simp add: copy_scoping_field_def keeps_refl)
  next
    case OutOfFuel
    with assms(1) True show ?thesis by (simp add: copy_scoping_field_def keeps_refl)
  qed
qed

lemma populate_append:
  "populate E D cm (xs @ ys) s =
     (case populate E D cm xs s of
        (Ok u, s1) \<Rightarrow> populate E D cm ys s1
      | (Raise e, s1) \<Rightarrow> (Raise e, s1)
      | (OutOfFuel, s1) \<Rightarrow> (OutOfFuel, s1))"
proof (induction xs arbitrary: s)
  case Nil
  show ?case by simp
next
  case (Cons x xs)
  obtain key raw where x: "x = (key, raw)" by (cases x)
  obtain r1 s1 where a: "assign_field E D cm key raw s = (r1, s1)"
    by (cases "assign_field E D cm key raw s")
  show ?case
    using Cons.IH [of s1] x a by (cases r1) simp_all
qed

text \<open>
  The iteration of the population loop for a field that refers to the instance being
  populated: both calls of \<open>desimplify\<close> return the placeholder from the cache, and the
  assignment, when the class accepts it, makes the field point to the instance.
\<close>

lemma assign_self_field:
  assumes "tagged_object kvs'" and "get_key E (j, kvs') = Ok key"
    and "cache s key = Some (Some a)" and "a < length (heap s)"
    and "setter E (klass (heap s ! a)) f (PObj a) = None"
    and "assign_field E (desimplify E m) (Some a) f (PDict j kvs') s = (Ok u, s1)"
  shows "a < length (heap s1) \<and> attrs (heap s1 ! a) f = Some (PObj a)"
proof (cases m)
  case 0
  with assms(6) show ?thesis by (simp add: assign_field_def)
next
  case (Suc m')
  let ?s1 = "update_foreign_keys a s"
  let ?s2 = "update_foreign_keys a ?s1"
  have d1: "desimplify E m (PDict j kvs') s = (Ok (PObj a), ?s1)"
    unfolding Suc using assms(1-3) by (rule tagged_cached)
  have "cache ?s1 key = Some (Some a)"
    using assms(3) by (simp add: update_foreign_keys_simps)
  with assms(1,2) have d2: "desimplify E m (PDict j kvs') ?s1 = (Ok (PObj a), ?s2)"
    unfolding Suc by (rule tagged_cached)
  have len: "a < length (heap ?s2)"
    using assms(4) by (simp add: update_foreign_keys_simps)
  have "klass (heap ?s2 ! a) = klass (heap s ! a)"
    using assms(4) by (simp add: update_foreign_keys_def)
  with assms(5) have acc: "setter E (klass (heap ?s2 ! a)) f (PObj a) = None" by simp
  have "assign_field E (desimplify E m) (Some a) f (PDict j kvs') s =
      (Ok (), ?s2\<lparr>heap := (heap ?s2)[a := (heap ?s2 ! a)\<lparr>attrs := (attrs (heap ?s2 ! a))(f \<mapsto> PObj a)\<rparr>]\<rparr>)"
    by (simp add: assign_field_def d1 try_assign_def d2 setattr_def acc)
  with assms(6) have
    "s1 = ?s2\<lparr>heap := (heap ?s2)[a := (heap ?s2 ! a)\<lparr>attrs := (attrs (heap ?s2 ! a))(f \<mapsto> PObj a)\<rparr>]\<rparr>"
    by simp
  with len show ?thesis by simp
qed

lemma spawn_fresh_class:
  assumes "spawn_empty_model E obj s = (Ok (Some a), s1)"
    and "get_key E obj = Ok key" and "cache s key = None"
  shows "\<exists>name cls. class_name_field (snd obj) = Some name \<and>
           get_model_class_from_name E name = Some cls \<and> a = length (heap s) \<and>
           s1 = s\<lparr>heap := heap s @ [new_object cls],
                  cache := (cache s)(key \<mapsto> Some (length (heap s)))\<rparr>"
proof (cases "class_name_field (snd obj)")
  case None
  with assms(1) show ?thesis by (simp add: spawn_empty_model_def)
next
  case (Some name)
  show ?thesis
  proof (cases "name = PNone")
    case True
    with assms(1) Some show ?thesis by (simp add: spawn_empty_model_def)
  next
    case False
    show ?thesis
    proof (cases "get_model_class_from_name E name")
      case None
      with assms(1) Some False show ?thesis
        by (cases name) (simp_all add: spawn_empty_model_def)
    next
      case (Some cls)
      with assms \<open>class_name_field (snd obj) = Some name\<close> False show ?thesis
        by (cases name) (auto simp: spawn_empty_model_def Let_def)
    qed
  qed
qed

text \<open>
  A call of \<open>novabase_desimplify\<close> for a key that the cache does not hold, when it
  returns: the instance is constructed at the first free address and is in the cache
  under the key when \<open>update_nova_model\<close> starts; it is the result of the call.
\<close>

lemma fresh_reconstruction:
  assumes nb: "novabase_desimplify E D obj s = (Ok r, s1)" and pres: "preserves D"
    and key: "get_key E obj = Ok key" and absent: "cache s key = None"
  obtains name cls where
    "class_name_field (snd obj) = Some name" and "get_model_class_from_name E name = Some cls"
    and "update_nova_model E D obj
           (s\<lparr>heap := heap s @ [new_object cls],
              cache := (cache s)(key \<mapsto> Some (length (heap s)))\<rparr>)
         = (Ok (length (heap s)), s1)"
    and "r = PObj (length (heap s))"
proof -
  let ?a = "length (heap s)"
  from nb key absent have "and_then
         (and_then (spawn_empty_model E obj s) (\<lambda>r s1.
            and_then (update_nova_model E D obj (s1\<lparr>cache := (cache s1)(key \<mapsto> r)\<rparr>))
              (\<lambda>_ s2. (Ok (), s2))))
         (\<lambda>_ s3. case cache s3 key of
                       Some r \<Rightarrow> (Ok (ref_val r), s3)
                     | None \<Rightarrow> (Raise (PyExc KeyError (quoted key)), s3)) = (Ok r, s1)"
    by (simp add: novabase_desimplify_def)
  then obtain u s3 where
    inner: "and_then (spawn_empty_model E obj s) (\<lambda>r s1.
            and_then (update_nova_model E D obj (s1\<lparr>cache := (cache s1)(key \<mapsto> r)\<rparr>))
              (\<lambda>_ s2. (Ok (), s2))) = (Ok u, s3)"
    and lookup: "(case cache s3 key of
                       Some r \<Rightarrow> (Ok (ref_val r), s3)
                     | None \<Rightarrow> (Raise (PyExc KeyError (quoted key)), s3)) = (Ok r, s1)"
    by (rule and_then_Ok_elim)
  from lookup have s3: "s3 = s1"
    by (cases "cache s3 key") auto
  from inner obtain c t0 where
    sp: "spawn_empty_model E obj s = (Ok c, t0)"
    and upd0: "and_then (update_nova_model E D obj (t0\<lparr>cache := (cache t0)(key \<mapsto> c)\<rparr>))
              (\<lambda>_ s2. (Ok (), s2)) = (Ok u, s3)"
    by (rule and_then_Ok_elim)
  let ?t0 = "t0\<lparr>cache := (cache t0)(key \<mapsto> c)\<rparr>"
  from upd0 obtain b s3' where
    upd: "update_nova_model E D obj ?t0 = (Ok b, s3')" and "(Ok (), s3') = (Ok u, s3)"
    by (rule and_then_Ok_elim)
  then have upd': "update_nova_model E D obj ?t0 = (Ok b, s1)"
    using s3 by simp
  from update_nova_model_Ok [OF pres upd' key] obtain s4 where
    c: "c = Some b" and ev: "evolves_ex {b} ?t0 s4" and s1: "s1 = update_foreign_keys b s4"
    by auto
  from spawn_fresh_class [OF sp [unfolded c] key absent] obtain name cls where
    n: "class_name_field (snd obj) = Some name"
    and cl: "get_model_class_from_name E name = Some cls"
    and b: "b = ?a"
    and t0: "t0 = s\<lparr>heap := heap s @ [new_object cls], cache := (cache s)(key \<mapsto> Some ?a)\<rparr>"
    by blast
  have t0': "?t0 = s\<lparr>heap := heap s @ [new_object cls], cache := (cache s)(key \<mapsto> Some ?a)\<rparr>"
    unfolding t0 c b by simp
  have "cache ?t0 key = Some (Some ?a)" by (simp add: c b)
  with ev have "cache s4 key = Some (Some ?a)" by (rule evolves_cache)
  then have "cache s1 key = Some (Some ?a)"
    unfolding s1 by (simp add: update_foreign_keys_simps)
  with lookup s3 have r: "r = PObj ?a" by (simp add: ref_val_def)
  from upd' have u: "update_nova_model E D obj
           (s\<lparr>heap := heap s @ [new_object cls], cache := (cache s)(key \<mapsto> Some ?a)\<rparr>)
         = (Ok ?a, s1)"
    unfolding t0' b .
  from n cl u r show ?thesis by (rule that)
qed

text \<open>
  C2, as the code has it. A mapping without a strategy tag whose class-name field is a
  string, whose key (as \<open>get_key\<close> computes it) the cache does not hold, and one of whose
  fields, other than \<open>user_id\<close> and \<open>project_id\<close>, holds a mapping that goes to
  \<open>novabase_desimplify\<close> and has the same key. Then:
  \<^item> \<open>desimplify\<close> finishes within some recursion budget, whatever the other fields and the
    store hold;
  \<^item> once the key is cached, \<open>desimplify\<close> on the inner mapping returns the cached
    instance with one unit of budget, that is, without a nested call;
  \<^item> whenever \<open>desimplify\<close> on the outer mapping returns, its result is the instance
    constructed at the first free address, and, the class accepting the assignment, the
    field of this instance is the instance itself.
\<close>

theorem self_reference_terminates:
  assumes inline: "\<not> has_key kvs ''simplify_strategy''"
    and cls: "class_name_field kvs = Some (PStr c)"
    and key: "get_key E (i, kvs) = Ok key" and absent: "cache s key = None"
    and dist: "distinct (map fst kvs)" and field: "(f, PDict j kvs') \<in> set kvs"
    and tagged': "tagged_object kvs'" and key': "get_key E (j, kvs') = Ok key"
    and f: "f \<noteq> ''user_id''" "f \<noteq> ''project_id''"
    and accept: "setter E c f (PObj (length (heap s))) = None"
  shows "(\<exists>n. fst (desimplify E n (PDict i kvs) s) \<noteq> OutOfFuel)
       \<and> (\<forall>m s2. cache s2 key = Some (Some (length (heap s))) \<longrightarrow>
            desimplify E (Suc m) (PDict j kvs') s2
              = (Ok (PObj (length (heap s))), update_foreign_keys (length (heap s)) s2))
       \<and> (\<forall>n r s'. desimplify E n (PDict i kvs) s = (Ok r, s') \<longrightarrow>
            r = PObj (length (heap s))
            \<and> attrs (heap s' ! length (heap s)) f = Some (PObj (length (heap s))))"
proof (intro conjI allI impI)
  show "\<exists>n. fst (desimplify E n (PDict i kvs) s) \<noteq> OutOfFuel"
    using desimplify_finishes [of E "PDict i kvs" s] by (simp add: finishes_def)
next
  fix m and s2 :: state
  assume "cache s2 key = Some (Some (length (heap s)))"
  with tagged' key' show "desimplify E (Suc m) (PDict j kvs') s2
      = (Ok (PObj (length (heap s))), update_foreign_keys (length (heap s)) s2)"
    by (rule tagged_cached)
next
  fix n r s'
  assume run: "desimplify E n (PDict i kvs) s = (Ok r, s')"
  let ?a = "length (heap s)"
  from cls inline have tagged: "tagged_object kvs"
    by (auto simp: tagged_object_def class_name_field_def split: if_splits)
  from run tagged obtain m s1 where
    nb: "novabase_desimplify E (desimplify E m) (i, kvs) s = (Ok r, s1)"
    and fx: "fixup r s1 = (Ok r, s')"
    by (rule desimplify_tagged_Suc)
  let ?D = "desimplify E m"
  have pres: "preserves ?D" by (rule desimplify_preserves)
  from nb pres key absent obtain name cls' where
    n: "class_name_field (snd (i, kvs)) = Some name"
    and cl: "get_model_class_from_name E name = Some cls'"
    and upd: "update_nova_model E ?D (i, kvs)
           (s\<lparr>heap := heap s @ [new_object cls'], cache := (cache s)(key \<mapsto> Some ?a)\<rparr>)
         = (Ok ?a, s1)"
    and r: "r = PObj ?a"
    by (rule fresh_reconstruction)
  let ?t1 = "s\<lparr>heap := heap s @ [new_object cls'], cache := (cache s)(key \<mapsto> Some ?a)\<rparr>"
  from n cls cl have c: "cls' = c"
    by (auto simp: get_model_class_from_name_def split: if_splits)
  from upd key inline have fm: "fill_model E ?D (Some ?a) kvs ?t1 = (Ok ?a, s1)"
    by (simp add: update_nova_model_def)
  from fm [unfolded fill_model_def] obtain u1 p1 where
    pop: "populate E ?D (Some ?a) kvs ?t1 = (Ok u1, p1)"
    and r1: "and_then (copy_scoping_field E (Some ?a) kvs ''user_id'' p1) (\<lambda>_ s2.
     and_then (copy_scoping_field E (Some ?a) kvs ''project_id'' s2) (\<lambda>_ s3.
       case Some ?a of
         None \<Rightarrow> (Raise (PyExc AttributeError
                    ''NoneType object has no attribute update_foreign_keys''), s3)
       | Some a \<Rightarrow> (Ok a, update_foreign_keys a s3))) = (Ok ?a, s1)"
    by (rule and_then_Ok_elim)
  from r1 obtain u2 p2 where
    c1: "copy_scoping_field E (Some ?a) kvs ''user_id'' p1 = (Ok u2, p2)"
    and r2: "and_then (copy_scoping_field E (Some ?a) kvs ''project_id'' p2) (\<lambda>_ s3.
       case Some ?a of
         None \<Rightarrow> (Raise (PyExc AttributeError
                    ''NoneType object has no attribute update_foreign_keys''), s3)
       | Some a \<Rightarrow> (Ok a, update_foreign_keys a s3)) = (Ok ?a, s1)"
    by (rule and_then_Ok_elim)
  from r2 obtain u3 p3 where
    c2: "copy_scoping_field E (Some ?a) kvs ''project_id'' p2 = (Ok u3, p3)"
    and fin: "(case Some ?a of
         None \<Rightarrow> (Raise (PyExc AttributeError
                    ''NoneType object has no attribute update_foreign_keys''), p3)
       | Some a \<Rightarrow> (Ok a, update_foreign_keys a p3)) = (Ok ?a, s1)"
    by (rule and_then_Ok_elim)
  from fin have s1: "s1 = update_foreign_keys ?a p3" by simp
  from fx r have s': "s' = update_foreign_keys ?a s1" by (simp add: fixup_def)
  from field obtain pre post where split: "kvs = pre @ (f, PDict j kvs') # post"
    by (auto dest: split_list)
  with dist have post: "f \<notin> fst ` set post" by auto
  obtain r0 q0 where p0: "populate E ?D (Some ?a) pre ?t1 = (r0, q0)"
    by (cases "populate E ?D (Some ?a) pre ?t1")
  from pop [unfolded split populate_append p0] have
    "\<exists>u0. r0 = Ok u0" by (cases r0) auto
  then obtain u0 where r0: "r0 = Ok u0" ..
  from pop [unfolded split populate_append p0 r0] have
    tail: "populate E ?D (Some ?a) ((f, PDict j kvs') # post) q0 = (Ok u1, p1)" by simp
  obtain ra q1 where af: "assign_field E ?D (Some ?a) f (PDict j kvs') q0 = (ra, q1)"
    by (cases "assign_field E ?D (Some ?a) f (PDict j kvs') q0")
  from tail af have "\<exists>ua. ra = Ok ua" by (cases ra) auto
  then obtain ua where ra: "ra = Ok ua" ..
  from tail af ra have rest: "populate E ?D (Some ?a) post q1 = (Ok u1, p1)" by simp
  have ev0: "evolves_ex {?a} ?t1 q0"
    using populate_evolves [OF pres p0] by simp
  have "cache ?t1 key = Some (Some ?a)" by simp
  with ev0 have ck: "cache q0 key = Some (Some ?a)" by (rule evolves_cache)
  have len1: "?a < length (heap ?t1)" by simp
  with ev0 have len0: "?a < length (heap q0)"
    by (auto simp: evolves_ex_def)
  from ev0 len1 have "klass (heap q0 ! ?a) = klass (heap ?t1 ! ?a)"
    by (auto simp: evolves_ex_def)
  then have "klass (heap q0 ! ?a) = c"
    by (simp add: new_object_def c)
  with accept have acc: "setter E (klass (heap q0 ! ?a)) f (PObj ?a) = None" by simp
  from assign_self_field [OF tagged' key' ck len0 acc af [unfolded ra]]
  have len_q1: "?a < length (heap q1)" and set: "attrs (heap q1 ! ?a) f = Some (PObj ?a)"
    by simp_all
  have "keeps ?a f q1 p1" using populate_keeps [OF pres post rest] .
  moreover have "keeps ?a f p1 p2" using copy_scoping_field_keeps [OF c1] f(1) by simp
  moreover have "keeps ?a f p2 p3" using copy_scoping_field_keeps [OF c2] f(2) by simp
  moreover have "keeps ?a f p3 s1" unfolding s1 by (rule update_foreign_keys_keeps)
  moreover have "keeps ?a f s1 s'" unfolding s' by (rule update_foreign_keys_keeps)
  ultimately have "keeps ?a f q1 s'"
    by (blast intro: keeps_trans)
  with len_q1 set show "attrs (heap s' ! ?a) f = Some (PObj ?a)"
    by (simp add: keeps_def)
  from r show "r = PObj ?a" .
qed

theorem self_reference_terminates_witness:
  "(\<exists>n. fst (desimplify demo_env n self_referring empty_state) \<noteq> OutOfFuel)
   \<and> fst (desimplify demo_env 3 self_referring empty_state) = Ok (PObj 0)
   \<and> attrs (heap (snd (desimplify demo_env 3 self_referring empty_state)) ! 0) ''me'' = Some (PObj 0)"
proof -
  let ?inner = "[(''simplify_strategy'', PStr ''novabase''), (''novabase_classname'', PStr ''Instance''),
                 (''tablename'', PStr ''instances''), (''id'', PInt 1)]"
  let ?kvs = "[(''novabase_classname'', PStr ''Instance''), (''tablename'', PStr ''instances''),
               (''id'', PInt 1), (''me'', PDict 2 ?inner), (''name'', PStr ''vm'')]"
  have h1: "\<not> has_key ?kvs ''simplify_strategy''"
    by (simp add: has_key_def)
  have h2: "class_name_field ?kvs = Some (PStr ''Instance'')"
    by (simp add: class_name_field_def has_key_def)
  have h3: "get_key demo_env (1, ?kvs) = Ok ''instances-1''"
    by (simp add: engine_defs str_nat.simps)
  have h4: "cache empty_state ''instances-1'' = None"
    by (simp add: empty_state_def)
  have h5: "distinct (map fst ?kvs)" by simp
  have h6: "(''me'', PDict 2 ?inner) \<in> set ?kvs" by simp
  have h7: "tagged_object ?inner"
    by (simp add: tagged_object_def has_key_def)
  have h8: "get_key demo_env (2, ?inner) = Ok ''instances-1''"
    by (simp add: engine_defs str_nat.simps)
  have h9: "''me'' \<noteq> ''user_id''" "''me'' \<noteq> ''project_id''" by simp_all
  have h10: "setter demo_env ''Instance'' ''me'' (PObj (length (heap empty_state))) = None"
    by (simp add: demo_defs)
  note main = self_reference_terminates [OF h1 h2 h3 h4 h5 h6 h7 h8 h9 h10]
  obtain r0 s' where run: "desimplify demo_env 3 (PDict 1 ?kvs) empty_state = (r0, s')"
    by (cases "desimplify demo_env 3 (PDict 1 ?kvs) empty_state")
  have "fst (desimplify demo_env 3 (PDict 1 ?kvs) empty_state) = Ok (PObj 0)"
    by (simp add: numeral_3_eq_3 engine_defs demo_defs str_nat.simps sublist_code)
  then obtain r where r: "r0 = Ok r" unfolding run by simp
  from main run [unfolded r] have
    "r = PObj (length (heap empty_state))
     \<and> attrs (heap s' ! length (heap empty_state)) ''me'' = Some (PObj (length (heap empty_state)))"
    by blast
  then have res: "r = PObj 0 \<and> attrs (heap s' ! 0) ''me'' = Some (PObj 0)"
    by (simp add: empty_state_def)
  from main have "\<exists>n. fst (desimplify demo_env n (PDict 1 ?kvs) empty_state) \<noteq> OutOfFuel"
    by blast
  with res show ?thesis
    unfolding self_referring_def run r by simp
qed

text \<open>
  A mapping whose field holds a mapping with its class name and id but another table
  name: the field of the resulting instance points to a second instance.
\<close>

theorem other_table_reference_counterexample:
  "fst (desimplify demo_env 3 referring_other_table empty_state) = Ok (PObj 0)
   \<and> attrs (heap (snd (desimplify demo_env 3 referring_other_table empty_state)) ! 0) ''me''
       = Some (PObj 1)"
  by (simp add: numeral_3_eq_3 engine_defs demo_defs str_nat.simps sublist_code
      referring_other_table_def)

section \<open>The population loop\<close>

lemma assign_field_effect:
  assumes pres: "preserves D"
    and ret: "\<forall>t. evolves_ex {a} s t \<longrightarrow> (\<exists>v t'. D raw t = (Ok v, t'))"
    and a: "a < length (heap s)"
    and fb: "\<forall>v e. setter E (klass (heap s ! a)) k v = Some e \<longrightarrow>
                sublist ''None is not list-like'' (exc_message e) \<longrightarrow>
                setter E (klass (heap s ! a)) k (PList []) = None"
    and run: "assign_field E D (Some a) k raw s = (r, s')"
  shows "r = Ok () \<and>
     (\<exists>v w t1. D raw s = (Ok v, t1)
        \<and> (if v \<noteq> PNone then (\<exists>t2. D raw t1 = (Ok w, t2)) else w = raw)
        \<and> attrs (heap s' ! a) k =
            (case setter E (klass (heap s ! a)) k w of
               None \<Rightarrow> Some w
             | Some e \<Rightarrow> if sublist ''None is not list-like'' (exc_message e)
                          then Some (PList []) else attrs (heap s ! a) k))"
proof -
  obtain v t1 where first: "D raw s = (Ok v, t1)"
    using ret evolves_ex_refl [of "{a}" s] by blast
  have later: "evolves_ex {a} s t1"
    using pres first by (rule preservesD)
  obtain w t2 where second:
    "if v \<noteq> PNone then D raw t1 = (Ok w, t2) else w = raw \<and> t2 = t1"
  proof (cases "v = PNone")
    case True
    then show ?thesis
      using that [of raw t1] by simp
  next
    case False
    from ret later obtain w t2 where "D raw t1 = (Ok w, t2)"
      by blast
    with False show ?thesis
      using that by simp
  qed
  have "evolves_ex {} s t1"
    using pres first by (rule preservesD)
  moreover have "evolves_ex {} t1 t2"
    using second preservesD [OF pres, of raw t1 "Ok w" t2 "{}"] evolves_ex_refl [of "{}" t1]
    by (cases "v = PNone") auto
  ultimately have "evolves_ex {} s t2"
    by (rule evolves_ex_trans_same)
  with a have a2: "a < length (heap t2)" and k2: "klass (heap t2 ! a) = klass (heap s ! a)"
    and at2: "attrs (heap t2 ! a) = attrs (heap s ! a)"
    by (auto simp: evolves_ex_def)
  have tried: "try_assign E D (Some a) k raw v t1 = setattr E (Some a) k w t2"
    using second by (cases "v = PNone") (auto simp: try_assign_def)
  have eff: "r = Ok () \<and> attrs (heap s' ! a) k =
            (case setter E (klass (heap s ! a)) k w of
               None \<Rightarrow> Some w
             | Some e \<Rightarrow> if sublist ''None is not list-like'' (exc_message e)
                          then Some (PList []) else attrs (heap s ! a) k)"
  proof (cases "setter E (klass (heap s ! a)) k w")
    case None
    with run first show ?thesis
      by (auto simp: assign_field_def tried setattr_def k2 a2)
  next
    case (Some e)
    show ?thesis
    proof (cases "sublist ''None is not list-like'' (exc_message e)")
      case True
      with Some fb have "setter E (klass (heap s ! a)) k (PList []) = None"
        by blast
      with run first Some True show ?thesis
        by (auto simp: assign_field_def tried setattr_def k2 a2)
    next
      case False
      with run first Some at2 show ?thesis
        by (auto simp: assign_field_def tried setattr_def k2)
    qed
  qed
  have "if v \<noteq> PNone then (\<exists>t2. D raw t1 = (Ok w, t2)) else w = raw"
    using second by (cases "v = PNone") auto
  with first eff show ?thesis
    by blast
qed


lemma populate_effect:
  assumes pres: "preserves D"
  shows "distinct (map fst items) \<Longrightarrow>
     (\<forall>(k, raw) \<in> set items. \<forall>t. evolves_ex {a} s t \<longrightarrow> (\<exists>v t'. D raw t = (Ok v, t'))) \<Longrightarrow>
     a < length (heap s) \<Longrightarrow>
     (\<forall>(k, raw) \<in> set items. \<forall>v e.
         setter E (klass (heap s ! a)) k v = Some e \<longrightarrow>
         sublist ''None is not list-like'' (exc_message e) \<longrightarrow>
         setter E (klass (heap s ! a)) k (PList []) = None) \<Longrightarrow>
     populate E D (Some a) items s = (r, s') \<Longrightarrow>
     r = Ok () \<and>
     (\<forall>(k, raw) \<in> set items. \<exists>v w t t1.
         evolves_ex {a} s t \<and> D raw t = (Ok v, t1)
       \<and> (if v \<noteq> PNone then (\<exists>t2. D raw t1 = (Ok w, t2)) else w = raw)
       \<and> attrs (heap s' ! a) k =
           (case setter E (klass (heap s ! a)) k w of
              None \<Rightarrow> Some w
            | Some e \<Rightarrow> if sublist ''None is not list-like'' (exc_message e)
                         then Some (PList []) else attrs (heap s ! a) k))"
proof (induction items arbitrary: s)
  case Nil
  then show ?case by simp
next
  case (Cons item items)
  obtain k raw where item: "item = (k, raw)"
    by (cases item)
  obtain r1 s1 where head: "assign_field E D (Some a) k raw s = (r1, s1)"
    by (cases "assign_field E D (Some a) k raw s")
  have ret: "\<forall>t. evolves_ex {a} s t \<longrightarrow> (\<exists>v t'. D raw t = (Ok v, t'))"
    using Cons.prems(2) item by auto
  have fb: "\<forall>v e. setter E (klass (heap s ! a)) k v = Some e \<longrightarrow>
                sublist ''None is not list-like'' (exc_message e) \<longrightarrow>
                setter E (klass (heap s ! a)) k (PList []) = None"
    using Cons.prems(4) item by auto
  from assign_field_effect [OF pres ret Cons.prems(3) fb head]
  have r1: "r1 = Ok ()"
    and eff: "\<exists>v w t1. D raw s = (Ok v, t1)
        \<and> (if v \<noteq> PNone then (\<exists>t2. D raw t1 = (Ok w, t2)) else w = raw)
        \<and> attrs (heap s1 ! a) k =
            (case setter E (klass (heap s ! a)) k w of
               None \<Rightarrow> Some w
             | Some e \<Rightarrow> if sublist ''None is not list-like'' (exc_message e)
                          then Some (PList []) else attrs (heap s ! a) k)"
    by blast+
  have ev1: "evolves_ex {a} s s1"
    using assign_field_evolves [OF pres head] by simp
  with Cons.prems(3) have a1: "a < length (heap s1)"
    and k1: "klass (heap s1 ! a) = klass (heap s ! a)"
    by (auto simp: evolves_ex_def)
  from Cons.prems(5) item head r1 have rest: "populate E D (Some a) items s1 = (r, s')"
    by simp
  have ih: "r = Ok () \<and>
     (\<forall>(k, raw) \<in> set items. \<exists>v w t t1.
         evolves_ex {a} s1 t \<and> D raw t = (Ok v, t1)
       \<and> (if v \<noteq> PNone then (\<exists>t2. D raw t1 = (Ok w, t2)) else w = raw)
       \<and> attrs (heap s' ! a) k =
           (case setter E (klass (heap s1 ! a)) k w of
              None \<Rightarrow> Some w
            | Some e \<Rightarrow> if sublist ''None is not list-like'' (exc_message e)
                         then Some (PList []) else attrs (heap s1 ! a) k))"
  proof (rule Cons.IH [OF _ _ a1 _ rest])
    show "distinct (map fst items)"
      using Cons.prems(1) by simp
    show "\<forall>(k, raw) \<in> set items. \<forall>t. evolves_ex {a} s1 t \<longrightarrow> (\<exists>v t'. D raw t = (Ok v, t'))"
    proof (intro ballI)
      fix x
      assume mem: "x \<in> set items"
      obtain k' raw' where x: "x = (k', raw')"
        by (cases x)
      from Cons.prems(2) mem
      have "\<forall>t. evolves_ex {a} s t \<longrightarrow> (\<exists>v t'. D raw' t = (Ok v, t'))"
        unfolding x by auto
      with ev1 have "\<forall>t. evolves_ex {a} s1 t \<longrightarrow> (\<exists>v t'. D raw' t = (Ok v, t'))"
        using evolves_ex_trans_same [of "{a}" s s1] by blast
      then show "case x of (k, raw) \<Rightarrow> \<forall>t. evolves_ex {a} s1 t \<longrightarrow> (\<exists>v t'. D raw t = (Ok v, t'))"
        unfolding x prod.case .
    qed
    show "\<forall>(k, raw) \<in> set items. \<forall>v e.
         setter E (klass (heap s1 ! a)) k v = Some e \<longrightarrow>
         sublist ''None is not list-like'' (exc_message e) \<longrightarrow>
         setter E (klass (heap s1 ! a)) k (PList []) = None"
      using Cons.prems(4) unfolding k1 by simp
  qed
  have fresh: "k \<notin> fst ` set items"
    using Cons.prems(1) item by simp
  have kept: "attrs (heap s' ! a) k = attrs (heap s1 ! a) k"
    using populate_keeps [OF pres fresh rest, of a] a1 by (simp add: keeps_def)
  have this_field: "\<exists>v w t t1.
         evolves_ex {a} s t \<and> D raw t = (Ok v, t1)
       \<and> (if v \<noteq> PNone then (\<exists>t2. D raw t1 = (Ok w, t2)) else w = raw)
       \<and> attrs (heap s' ! a) k =
           (case setter E (klass (heap s ! a)) k w of
              None \<Rightarrow> Some w
            | Some e \<Rightarrow> if sublist ''None is not list-like'' (exc_message e)
                         then Some (PList []) else attrs (heap s ! a) k)"
    using eff evolves_ex_refl [of "{a}" s] unfolding kept by blast
  have others: "\<exists>v w t t1.
         evolves_ex {a} s t \<and> D raw' t = (Ok v, t1)
       \<and> (if v \<noteq> PNone then (\<exists>t2. D raw' t1 = (Ok w, t2)) else w = raw')
       \<and> attrs (heap s' ! a) k' =
           (case setter E (klass (heap s ! a)) k' w of
              None \<Rightarrow> Some w
            | Some e \<Rightarrow> if sublist ''None is not list-like'' (exc_message e)
                         then Some (PList []) else attrs (heap s ! a) k')"
    if mem: "(k', raw') \<in> set items" for k' raw'
  proof -
    from mem fresh have "k \<noteq> k'"
      by force
    with assign_field_keeps [OF pres _ head, of k' a] Cons.prems(3)
    have old: "attrs (heap s1 ! a) k' = attrs (heap s ! a) k'"
      by (simp add: keeps_def)
    from ih mem obtain v w t t1 where t: "evolves_ex {a} s1 t" and d: "D raw' t = (Ok v, t1)"
      and w: "if v \<noteq> PNone then (\<exists>t2. D raw' t1 = (Ok w, t2)) else w = raw'"
      and val: "attrs (heap s' ! a) k' =
           (case setter E (klass (heap s1 ! a)) k' w of
              None \<Rightarrow> Some w
            | Some e \<Rightarrow> if sublist ''None is not list-like'' (exc_message e)
                         then Some (PList []) else attrs (heap s1 ! a) k')"
      by blast
    from ev1 t have "evolves_ex {a} s t"
      by (rule evolves_ex_trans_same)
    with d w val [unfolded k1 old] show ?thesis
      by blast
  qed
  have tail: "\<forall>(k, raw) \<in> set items. \<exists>v w t t1.
         evolves_ex {a} s t \<and> D raw t = (Ok v, t1)
       \<and> (if v \<noteq> PNone then (\<exists>t2. D raw t1 = (Ok w, t2)) else w = raw)
       \<and> attrs (heap s' ! a) k =
           (case setter E (klass (heap s ! a)) k w of
              None \<Rightarrow> Some w
            | Some e \<Rightarrow> if sublist ''None is not list-like'' (exc_message e)
                         then Some (PList []) else attrs (heap s ! a) k)"
  proof (intro ballI)
    fix x
    assume mem: "x \<in> set items"
    obtain k' raw' where x: "x = (k', raw')"
      by (cases x)
    from mem have "(k', raw') \<in> set items"
      unfolding x .
    from others [OF this]
    show "case x of (k, raw) \<Rightarrow> \<exists>v w t t1.
         evolves_ex {a} s t \<and> D raw t = (Ok v, t1)
       \<and> (if v \<noteq> PNone then (\<exists>t2. D raw t1 = (Ok w, t2)) else w = raw)
       \<and> attrs (heap s' ! a) k =
           (case setter E (klass (heap s ! a)) k w of
              None \<Rightarrow> Some w
            | Some e \<Rightarrow> if sublist ''None is not list-like'' (exc_message e)
                         then Some (PList []) else attrs (heap s ! a) k)"
      unfolding x prod.case .
  qed
  from ih have "r = Ok ()"
    by (rule conjunct1)
  with this_field tail show ?case
    unfolding item by simp
qed


text \<open>
  C6, on the loop \<open>for key in obj\<close> of \<open>update_nova_model\<close> (the one of
  \<open>ObjectDesimplifier\<close> and of \<open>LazyReference\<close>). The nested \<open>desimplify\<close> leaves the
  instances that exist alone and returns a value for each field value, in every later
  state of the session; the keys of the dict are distinct; a field that refuses a value
  with a message that contains \<open>None is not list-like\<close> accepts \<open>[]\<close>. Then the loop
  returns normally, and each field \<open>k\<close> of the dict has been treated as follows, \<open>w\<close>
  being the value of the assignment of the \<open>try\<close> (the raw value when it rehydrates to
  \<open>None\<close>, the rehydrated value otherwise): when the class accepts \<open>w\<close> the attribute is
  \<open>w\<close>; when it refuses \<open>w\<close> with a message that contains \<open>None is not list-like\<close> the
  attribute is \<open>[]\<close>; when it refuses \<open>w\<close> with another message the attribute has the
  value it had before the loop. An attribute that is not a key of the dict is unchanged.
\<close>

theorem population_failure_policy:
  assumes "preserves D"
    and "distinct (map fst items)"
    and "\<forall>(k, raw) \<in> set items. \<forall>t. evolves_ex {a} s t \<longrightarrow> (\<exists>v t'. D raw t = (Ok v, t'))"
    and "a < length (heap s)"
    and "\<forall>(k, raw) \<in> set items. \<forall>v e.
           setter E (klass (heap s ! a)) k v = Some e \<longrightarrow>
           sublist ''None is not list-like'' (exc_message e) \<longrightarrow>
           setter E (klass (heap s ! a)) k (PList []) = None"
    and "populate E D (Some a) items s = (r, s')"
  shows "r = Ok ()
     \<and> (\<forall>(k, raw) \<in> set items. \<exists>v w t t1.
          evolves_ex {a} s t \<and> D raw t = (Ok v, t1)
        \<and> (if v \<noteq> PNone then (\<exists>t2. D raw t1 = (Ok w, t2)) else w = raw)
        \<and> attrs (heap s' ! a) k =
            (case setter E (klass (heap s ! a)) k w of
               None \<Rightarrow> Some w
             | Some e \<Rightarrow> if sublist ''None is not list-like'' (exc_message e)
                          then Some (PList []) else attrs (heap s ! a) k))
     \<and> (\<forall>f. f \<notin> fst ` set items \<longrightarrow> attrs (heap s' ! a) f = attrs (heap s ! a) f)"
proof -
  have untouched: "attrs (heap s' ! a) f = attrs (heap s ! a) f" if "f \<notin> fst ` set items" for f
    using populate_keeps [OF assms(1) that assms(6), of a] assms(4) by (simp add: keeps_def)
  from populate_effect [OF assms(1) assms(2) assms(3) assms(4) assms(5) assms(6)] untouched
  show ?thesis
    by blast
qed

theorem population_failure_policy_witness:
  "fst (populate demo_env (desimplify demo_env 1) (Some 0)
       [(''tags'', PNone), (''locked'', PBool True), (''name'', PStr ''vm'')] one_instance) = Ok ()
   \<and> attrs (heap (snd (populate demo_env (desimplify demo_env 1) (Some 0)
       [(''tags'', PNone), (''locked'', PBool True), (''name'', PStr ''vm'')] one_instance)) ! 0)
     = [''tags'' \<mapsto> PList [], ''name'' \<mapsto> PStr ''vm'']"
proof -
  let ?D = "desimplify demo_env 1"
  let ?items = "[(''tags'', PNone), (''locked'', PBool True), (''name'', PStr ''vm'')]"
  obtain r s' where run: "populate demo_env ?D (Some 0) ?items one_instance = (r, s')"
    by (cases "populate demo_env ?D (Some 0) ?items one_instance")
  note scalar = desimplify_body_def dispatch_def fixup_def
  have pres: "preserves ?D"
    by (rule desimplify_preserves)
  have keys: "distinct (map fst ?items)"
    by simp
  have ret: "\<forall>(k, raw) \<in> set ?items. \<forall>t. evolves_ex {0} one_instance t \<longrightarrow> (\<exists>v t'. ?D raw t = (Ok v, t'))"
    by (simp add: scalar)
  have a: "0 < length (heap one_instance)"
    by (simp add: one_instance_def)
  have fb: "\<forall>(k, raw) \<in> set ?items. \<forall>v e.
           setter demo_env (klass (heap one_instance ! 0)) k v = Some e \<longrightarrow>
           sublist ''None is not list-like'' (exc_message e) \<longrightarrow>
           setter demo_env (klass (heap one_instance ! 0)) k (PList []) = None"
    by (simp add: demo_defs one_instance_def new_object_def exc_message_def sublist_code)
  note main = population_failure_policy [OF pres keys ret a fb run]
  from main have r: "r = Ok ()"
    by (rule conjunct1)
  from main have tags: "attrs (heap s' ! 0) ''tags'' = Some (PList [])"
    by (auto simp: scalar demo_defs one_instance_def new_object_def exc_message_def sublist_code)
  from main have locked: "attrs (heap s' ! 0) ''locked'' = None"
    by (auto simp: scalar demo_defs one_instance_def new_object_def exc_message_def sublist_code)
  from main have name: "attrs (heap s' ! 0) ''name'' = Some (PStr ''vm'')"
    by (auto simp: scalar demo_defs one_instance_def new_object_def exc_message_def sublist_code)
  from main have rest: "f \<notin> {''tags'', ''locked'', ''name''} \<Longrightarrow> attrs (heap s' ! 0) f = None" for f
    by (simp add: one_instance_def new_object_def)
  have "attrs (heap s' ! 0) = [''tags'' \<mapsto> PList [], ''name'' \<mapsto> PStr ''vm'']"
  proof
    fix f
    show "attrs (heap s' ! 0) f = [''tags'' \<mapsto> PList [], ''name'' \<mapsto> PStr ''vm''] f"
      using tags locked name rest [of f] by (cases "f \<in> {''tags'', ''locked'', ''name''}") auto
  qed
  with r show ?thesis
    unfolding run by simp
qed

text \<open>
  The assignments after the loop are outside the \<open>try\<close>. With a class whose \<open>user_id\<close>
  is a read-only property, the loop drops the failure of the field \<open>user_id\<close> and
  returns, and the copy of \<open>user_id\<close> that follows raises it again: the call of
  \<open>desimplify\<close> raises \<open>AttributeError\<close>.
\<close>

theorem field_failure_reaches_caller_counterexample:
  "fst (populate readonly_env (desimplify readonly_env 1) (Some 0) owned_instance one_instance) = Ok ()
   \<and> fst (desimplify readonly_env 2 (PDict 1 owned_instance) empty_state)
       = Raise (PyExc AttributeError ''can not set attribute'')"
  by (simp add: numeral_2_eq_2 engine_defs demo_defs readonly_env_def owned_instance_def
      one_instance_def str_nat.simps sublist_code)

section \<open>The identity cache across nested calls\<close>





















end
